theory Spec2Isabelle
  imports Complex_Main "HOL-Library.Sublist" "HOL-Library.AList" "HOL-Library.Log_Nat"
begin

section \<open>Python string primitives used by the indexing pipeline\<close>

text \<open>
  Strings are lists of characters. Only the built-in operations that the
  modelled functions call are defined: \<open>str.replace\<close> on a single
  character, \<open>str(int)\<close>, \<open>str.split(sep)\<close>, \<open>sep.join\<close>,
  \<open>str.strip()\<close>, \<open>str.find(sub, start)\<close> and the slice \<open>s[:k]\<close>.
\<close>

definition py_replace_char :: "char \<Rightarrow> char \<Rightarrow> string \<Rightarrow> string" where
  "py_replace_char old new s = map (\<lambda>c. if c = old then new else c) s"

definition digit_char :: "nat \<Rightarrow> char" where
  "digit_char d = ''0123456789'' ! d"

function dec_nat :: "nat \<Rightarrow> string" where
  "dec_nat n = (if n < 10 then [digit_char n]
                else dec_nat (n div 10) @ [digit_char (n mod 10)])"
  by pat_completeness auto
termination
  by (relation "measure id") auto

declare dec_nat.simps [simp del]

text \<open>\<open>str(i)\<close> for a Python integer: decimal digits, a leading minus sign when negative.\<close>

definition py_str_int :: "int \<Rightarrow> string" where
  "py_str_int i = (if i < 0 then CHR ''-'' # dec_nat (nat (- i)) else dec_nat (nat i))"

text \<open>
  \<open>s.split(sep)\<close> for a non-empty separator: the leftmost occurrence of the
  separator is cut out, and the scan resumes right after it. \<open>acc\<close> holds the
  current piece, reversed. (Python raises \<open>ValueError\<close> on an empty separator;
  every separator used below is a non-empty constant.)
\<close>

function split_aux :: "string \<Rightarrow> string \<Rightarrow> string \<Rightarrow> string list" where
  "split_aux sep acc [] = [rev acc]"
| "split_aux sep acc (c # cs) =
     (if sep \<noteq> [] \<and> prefix sep (c # cs)
      then rev acc # split_aux sep [] (drop (length sep) (c # cs))
      else split_aux sep (c # acc) cs)"
  by pat_completeness auto
termination
  by (relation "measure (\<lambda>(sep, acc, s). length s)") auto

definition py_split :: "string \<Rightarrow> string \<Rightarrow> string list" where
  "py_split sep s = split_aux sep [] s"

text \<open>\<open>sep.join(xs)\<close>.\<close>

fun py_join :: "string \<Rightarrow> string list \<Rightarrow> string" where
  "py_join sep [] = []"
| "py_join sep [x] = x"
| "py_join sep (x # y # ys) = x @ sep @ py_join sep (y # ys)"

text \<open>
  \<open>s.strip()\<close>. A character is a code point below 256; the whitespace of
  \<open>str.isspace\<close> in this range is tab, line feed, vertical tab, form feed, carriage
  return, the four separators 28 to 31, the space, the next-line control 133 and the
  no-break space 160.
\<close>

definition is_space :: "char \<Rightarrow> bool" where
  "is_space c = ((of_char c :: nat) \<in> {9, 10, 11, 12, 13, 28, 29, 30, 31, 32, 133, 160})"

definition py_strip :: "string \<Rightarrow> string" where
  "py_strip s = rev (dropWhile is_space (rev (dropWhile is_space s)))"

text \<open>
  \<open>s.find(sub, start)\<close>: the lowest index not below \<open>start\<close> where \<open>sub\<close> occurs,
  or \<open>-1\<close>. A negative \<open>start\<close> counts from the end; a \<open>start\<close> beyond the
  length finds nothing, not even the empty string.
\<close>

fun find_aux :: "string \<Rightarrow> string \<Rightarrow> nat \<Rightarrow> int" where
  "find_aux sub [] i = (if sub = [] then int i else -1)"
| "find_aux sub (c # cs) i = (if prefix sub (c # cs) then int i else find_aux sub cs (Suc i))"

definition py_find :: "string \<Rightarrow> string \<Rightarrow> int \<Rightarrow> int" where
  "py_find s sub start =
     (let n = int (length s);
          st = (if start < 0 then max 0 (start + n) else start)
      in if st > n then -1 else find_aux sub (drop (nat st) s) (nat st))"

text \<open>The slice \<open>s[:k]\<close>; a negative \<open>k\<close> counts from the end.\<close>

definition py_slice_to :: "string \<Rightarrow> int \<Rightarrow> string" where
  "py_slice_to s k = (if k < 0 then take (nat (int (length s) + k)) s else take (nat k) s)"

text \<open>Exceptions, as values.\<close>

datatype error =
    KeyError string
  | TypeError
  | IndexError
  | ZeroDivisionError
  | EmbeddingError
  | StoreError

definition bind_err :: "error + 'a \<Rightarrow> ('a \<Rightarrow> error + 'b) \<Rightarrow> error + 'b" where
  "bind_err m f = (case m of Inl e \<Rightarrow> Inl e | Inr x \<Rightarrow> f x)"

definition py_index :: "'a list \<Rightarrow> nat \<Rightarrow> error + 'a" where
  "py_index xs i = (if i < length xs then Inr (xs ! i) else Inl IndexError)"

section \<open>Python floats\<close>

text \<open>
  A Python float is an IEEE 754 double: a finite value, an infinity or a NaN. The
  finite doubles are the integer multiples \<open>k * 2^j * tiny\<close> with \<open>k < 2^53\<close> and
  \<open>j \<le> 2045\<close>, where \<open>tiny = 2^-1074\<close> is the smallest positive double. Every
  operation gives the double nearest to the exact result, a tie going to the even
  multiple. The sign of a zero is not kept: no comparison depends on it.
\<close>

definition tiny :: real where
  "tiny = 1 / 2 ^ 1074"

definition max_double :: real where
  "max_double = (2 ^ 53 - 1) * (2 ^ 2045 * tiny)"

text \<open>The integer nearest to \<open>q\<close>, the even one of the two at a tie.\<close>

definition round_half_even :: "real \<Rightarrow> int" where
  "round_half_even q =
     (let f = \<lfloor>q\<rfloor>; d = q - of_int f
      in if d < 1 / 2 then f else if d > 1 / 2 then f + 1 else if even f then f else f + 1)"

text \<open>
  The spacing of the doubles around \<open>x \<ge> 0\<close> is \<open>2 ^ ulp_exp x * tiny\<close>: the
  number of bits of \<open>\<lfloor>x / tiny\<rfloor>\<close> beyond 53, none for the subnormal range and the
  first binade above it.
\<close>

definition ulp_exp :: "real \<Rightarrow> nat" where
  "ulp_exp x = nat (bitlen \<lfloor>x / tiny\<rfloor> - 53)"

text \<open>Rounding of \<open>x \<ge> 0\<close> to the nearest multiple of the spacing, before overflow.\<close>

definition round_nearest :: "real \<Rightarrow> real" where
  "round_nearest x =
     (let u = 2 ^ ulp_exp x * tiny in of_int (round_half_even (x / u)) * u)"

datatype pyfloat = Fin real | PInf | MInf | NaN

text \<open>The double of an exact result: a rounded value beyond the largest double overflows.\<close>

definition to_double :: "real \<Rightarrow> pyfloat" where
  "to_double x =
     (let r = (if x < 0 then - round_nearest (- x) else round_nearest x)
      in if max_double < r then PInf else if r < - max_double then MInf else Fin r)"

text \<open>\<open>a + b\<close> on floats.\<close>

fun float_add :: "pyfloat \<Rightarrow> pyfloat \<Rightarrow> pyfloat" where
  "float_add (Fin x) (Fin y) = to_double (x + y)"
| "float_add NaN b = NaN"
| "float_add a NaN = NaN"
| "float_add PInf MInf = NaN"
| "float_add MInf PInf = NaN"
| "float_add PInf b = PInf"
| "float_add a PInf = PInf"
| "float_add MInf b = MInf"
| "float_add a MInf = MInf"

text \<open>\<open>a / b\<close> on floats: a zero divisor raises \<open>ZeroDivisionError\<close>.\<close>

fun float_div :: "pyfloat \<Rightarrow> pyfloat \<Rightarrow> error + pyfloat" where
  "float_div a (Fin y) =
     (if y = 0 then Inl ZeroDivisionError
      else case a of
             Fin x \<Rightarrow> Inr (to_double (x / y))
           | PInf \<Rightarrow> Inr (if 0 < y then PInf else MInf)
           | MInf \<Rightarrow> Inr (if 0 < y then MInf else PInf)
           | NaN \<Rightarrow> Inr NaN)"
| "float_div NaN b = Inr NaN"
| "float_div a NaN = Inr NaN"
| "float_div (Fin x) b = Inr (Fin 0)"
| "float_div a b = Inr NaN"

text \<open>\<open>a < b\<close> and \<open>a <= b\<close> on floats: false when either side is a NaN.\<close>

fun float_less :: "pyfloat \<Rightarrow> pyfloat \<Rightarrow> bool" where
  "float_less (Fin x) (Fin y) = (x < y)"
| "float_less NaN b = False"
| "float_less a NaN = False"
| "float_less a MInf = False"
| "float_less MInf b = True"
| "float_less PInf b = False"
| "float_less a PInf = True"

fun float_le :: "pyfloat \<Rightarrow> pyfloat \<Rightarrow> bool" where
  "float_le (Fin x) (Fin y) = (x \<le> y)"
| "float_le NaN b = False"
| "float_le a NaN = False"
| "float_le MInf b = True"
| "float_le a PInf = True"
| "float_le a MInf = False"
| "float_le PInf b = False"

fun is_finite_double :: "pyfloat \<Rightarrow> bool" where
  "is_finite_double (Fin x) = (\<bar>x\<bar> \<le> max_double)"
| "is_finite_double a = False"

section \<open>Data model\<close>

text \<open>\<open>file_reader.Document\<close>.\<close>

record document =
  doc_path :: string
  doc_content :: string
  doc_file_type :: string
  doc_modified :: real

text \<open>\<open>text_chunker.Chunk\<close>.\<close>

record chunk =
  content :: string
  source_path :: string
  file_type :: string
  chunk_index :: int
  total_chunks :: int
  modified :: real
  char_start :: int
  char_end :: int
  headers :: "string list"
  token_count :: int

text \<open>
  A metadata dictionary of the store: string keys, and values that are strings,
  integers or floats. A timestamp is a real number: it is stored, read back and
  compared, never computed with.
\<close>

datatype mvalue = MStr string | MInt int | MFloat real

type_synonym metadata = "(string \<times> mvalue) list"

text \<open>\<open>vector_store.SearchResult\<close>.\<close>

record search_result =
  sr_chunk :: chunk
  score :: pyfloat
  distance :: pyfloat

text \<open>The configuration that \<open>get_splitter\<close> passes to the recursive splitter.\<close>

record splitter =
  chunk_size :: int
  chunk_overlap :: int
  separators :: "string list"
  keep_separator :: bool

text \<open>One record of the index store, and the store: at most one record per id.\<close>

record stored =
  st_document :: string
  st_embedding :: "real list"
  st_metadata :: metadata

type_synonym collection = "(string \<times> stored) list"

text \<open>What \<open>collection.query\<close> returns: one inner list per query embedding.\<close>

record query_result =
  q_ids :: "string list list"
  q_documents :: "string list list"
  q_metadatas :: "metadata list list"
  q_distances :: "pyfloat list list"

text \<open>
  The collaborators outside the repository, taken as parameters:
  \<open>pathlib.Path(p).name\<close>, the recursive splitter's \<open>split_text\<close>, the
  tokenizer's \<open>encode\<close>, the embedding model's \<open>encode\<close> on one text and on a
  batch, and the store's nearest-neighbour \<open>query\<close>.
\<close>

record externals =
  path_name :: "string \<Rightarrow> string"
  split_text :: "splitter \<Rightarrow> string \<Rightarrow> string list"
  enc_encode :: "string \<Rightarrow> nat list"
  model_encode :: "string \<Rightarrow> error + real list"
  model_encode_batch :: "string list \<Rightarrow> nat \<Rightarrow> error + real list list"
  coll_query :: "collection \<Rightarrow> real list list \<Rightarrow> int \<Rightarrow> metadata option \<Rightarrow> error + query_result"

section \<open>Chunker (\<open>text_chunker\<close>)\<close>

definition count_tokens :: "externals \<Rightarrow> string \<Rightarrow> int" where
  "count_tokens ext text = int (length (enc_encode ext text))"

definition get_splitter :: splitter where
  "get_splitter =
     \<lparr>chunk_size = 512, chunk_overlap = 100,
      separators = [CHR 0x0A # ''## '', CHR 0x0A # ''### '', CHR 0x0A # ''#### '',
                    [CHR 0x0A, CHR 0x0A], [CHR 0x0A], ''. '', '', '', '' '', []],
      keep_separator = True\<rparr>"

text \<open>
  One iteration of the loop of \<open>extract_headers\<close> on the three variables
  \<open>current_h1\<close>, \<open>current_h2\<close>, \<open>current_h3\<close>.
\<close>

definition header_step ::
  "string option \<times> string option \<times> string option \<Rightarrow> string \<Rightarrow>
   string option \<times> string option \<times> string option" where
  "header_step st line =
     (case st of (current_h1, current_h2, current_h3) \<Rightarrow>
        if prefix ''# '' line \<and> \<not> prefix ''##'' line then (Some line, None, None)
        else if prefix ''## '' line \<and> \<not> prefix ''###'' line then (current_h1, Some line, None)
        else if prefix ''### '' line then (current_h1, current_h2, Some line)
        else (current_h1, current_h2, current_h3))"

text \<open>Truth value of an optional string: \<open>None\<close> and the empty string are false.\<close>

fun truthy :: "string option \<Rightarrow> bool" where
  "truthy None = False"
| "truthy (Some s) = (s \<noteq> [])"

text \<open>\<open>if current: headers.append(current)\<close>.\<close>

definition append_if :: "string list \<Rightarrow> string option \<Rightarrow> string list" where
  "append_if hs h = (case h of Some s \<Rightarrow> if truthy h then hs @ [s] else hs | None \<Rightarrow> hs)"

definition extract_headers :: "string \<Rightarrow> int \<Rightarrow> string list" where
  "extract_headers cont char_position =
     (let lines = py_split [CHR 0x0A] (py_slice_to cont char_position)
      in case foldl header_step (None, None, None) lines of
           (current_h1, current_h2, current_h3) \<Rightarrow>
             append_if (append_if (append_if [] current_h1) current_h2) current_h3)"

text \<open>
  The first loop of \<open>chunk_document\<close>: \<open>i\<close> is the index of \<open>enumerate\<close>, \<open>n\<close> is
  \<open>len(texts)\<close>, and \<open>char_position\<close> is the running estimate, which may become
  negative.
\<close>

fun chunk_loop ::
  "externals \<Rightarrow> document \<Rightarrow> nat \<Rightarrow> nat \<Rightarrow> int \<Rightarrow> string list \<Rightarrow> chunk list" where
  "chunk_loop ext doc n i char_position [] = []"
| "chunk_loop ext doc n i char_position (text # texts) =
     (let search_text = (if length text \<ge> 50 then take 50 text else text);
          found = py_find (doc_content doc) search_text (max 0 (char_position - 150));
          char_start = (if found = -1 then char_position else found);
          char_end = char_start + int (length text);
          chunk = \<lparr>content = text,
                   source_path = doc_path doc,
                   file_type = doc_file_type doc,
                   chunk_index = int i,
                   total_chunks = int n,
                   modified = doc_modified doc,
                   char_start = char_start,
                   char_end = char_end,
                   headers = extract_headers (doc_content doc) char_start,
                   token_count = count_tokens ext text\<rparr>
      in chunk # chunk_loop ext doc n (Suc i) (char_start + int (length text) - 100) texts)"

text \<open>The second loop stamps every chunk with the final count.\<close>

definition chunk_document :: "externals \<Rightarrow> document \<Rightarrow> splitter \<Rightarrow> chunk list" where
  "chunk_document ext doc spl =
     (let texts = split_text ext spl (doc_content doc);
          chunks = chunk_loop ext doc (length texts) 0 0 texts
      in map (\<lambda>chunk. chunk\<lparr>total_chunks := int (length chunks)\<rparr>) chunks)"

fun chunk_all_loop :: "externals \<Rightarrow> splitter \<Rightarrow> document list \<Rightarrow> chunk list \<Rightarrow> chunk list" where
  "chunk_all_loop ext spl [] all_chunks = all_chunks"
| "chunk_all_loop ext spl (doc # documents) all_chunks =
     (if py_strip (doc_content doc) \<noteq> []
      then chunk_all_loop ext spl documents (all_chunks @ chunk_document ext doc spl)
      else chunk_all_loop ext spl documents all_chunks)"

definition chunk_all :: "externals \<Rightarrow> document list \<Rightarrow> chunk list" where
  "chunk_all ext documents = chunk_all_loop ext get_splitter documents []"

text \<open>
  The header lineage as the spec words it, for comparison with \<open>extract_headers\<close>:
  the level of a header line is its number of leading hash signs, provided a space
  follows them; the stack holds (level, line) pairs; a header of level \<open>N \<le> 3\<close>
  removes every entry of level \<open>N\<close> or deeper and is pushed; deeper levels and
  other lines leave the stack alone; the lineage is the stack's lines, outermost first.
\<close>

definition spec_header_level :: "string \<Rightarrow> nat option" where
  "spec_header_level line =
     (let n = length (takeWhile (\<lambda>c. c = CHR ''#'') line)
      in if n \<ge> 1 \<and> prefix '' '' (drop n line) then Some n else None)"

definition spec_stack_step :: "(nat \<times> string) list \<Rightarrow> string \<Rightarrow> (nat \<times> string) list" where
  "spec_stack_step stack line =
     (case spec_header_level line of
        None \<Rightarrow> stack
      | Some n \<Rightarrow> if n \<le> 3 then filter (\<lambda>(l, h). l < n) stack @ [(n, line)] else stack)"

definition spec_header_lineage :: "string list \<Rightarrow> string list" where
  "spec_header_lineage lines = map snd (foldl spec_stack_step [] lines)"

section \<open>Chunk identity (\<open>vector_store.make_chunk_id\<close>)\<close>

text \<open>\<open>source_path.replace('\\', '/')\<close>: every backslash becomes a slash.\<close>

definition normalize_path :: "string \<Rightarrow> string" where
  "normalize_path p = py_replace_char (CHR 0x5C) (CHR ''/'') p"

definition make_chunk_id :: "chunk \<Rightarrow> string" where
  "make_chunk_id c =
     (let normalized_path = normalize_path (source_path c)
      in normalized_path @ ''::chunk_'' @ py_str_int (chunk_index c))"

text \<open>
  Two paths differ only in the direction of their separators when they have the
  same length and agree position by position, except that a slash may stand
  where the other has a backslash.
\<close>

definition is_sep :: "char \<Rightarrow> bool" where
  "is_sep c = (c = CHR ''/'' \<or> c = CHR 0x5C)"

definition same_up_to_separators :: "string \<Rightarrow> string \<Rightarrow> bool" where
  "same_up_to_separators p q = list_all2 (\<lambda>a b. a = b \<or> (is_sep a \<and> is_sep b)) p q"

section \<open>Index store (\<open>vector_store\<close>)\<close>

definition chunk_to_metadata :: "(string \<Rightarrow> string) \<Rightarrow> chunk \<Rightarrow> metadata" where
  "chunk_to_metadata name_of c =
     [(''source_path'', MStr (source_path c)),
      (''file_name'', MStr (name_of (source_path c))),
      (''file_type'', MStr (file_type c)),
      (''chunk_index'', MInt (chunk_index c)),
      (''total_chunks'', MInt (total_chunks c)),
      (''modified'', MFloat (modified c)),
      (''headers'', MStr (if headers c \<noteq> [] then py_join '' > '' (headers c) else [])),
      (''token_count'', MInt (token_count c)),
      (''char_start'', MInt (char_start c)),
      (''char_end'', MInt (char_end c))]"

text \<open>
  \<open>metadata[key]\<close> raises \<open>KeyError\<close> on a missing key. The fields of a chunk are
  typed here, so a value of another kind than the field's is an error of the model.
\<close>

definition md_get :: "metadata \<Rightarrow> string \<Rightarrow> error + mvalue" where
  "md_get md k = (case map_of md k of None \<Rightarrow> Inl (KeyError k) | Some v \<Rightarrow> Inr v)"

fun as_str :: "mvalue \<Rightarrow> error + string" where
  "as_str (MStr s) = Inr s"
| "as_str v = Inl TypeError"

fun as_int :: "mvalue \<Rightarrow> error + int" where
  "as_int (MInt i) = Inr i"
| "as_int v = Inl TypeError"

fun as_real :: "mvalue \<Rightarrow> error + real" where
  "as_real (MFloat r) = Inr r"
| "as_real (MInt i) = Inr (of_int i)"
| "as_real v = Inl TypeError"

definition md_str :: "metadata \<Rightarrow> string \<Rightarrow> error + string" where
  "md_str md k = bind_err (md_get md k) as_str"

definition md_int :: "metadata \<Rightarrow> string \<Rightarrow> error + int" where
  "md_int md k = bind_err (md_get md k) as_int"

definition md_real :: "metadata \<Rightarrow> string \<Rightarrow> error + real" where
  "md_real md k = bind_err (md_get md k) as_real"

text \<open>
  \<open>headers.split(" > ") if headers else []\<close> on the value read by
  \<open>metadata.get("headers", "")\<close>: an empty string or a zero is false and gives the
  empty list; any other value that is not a string has no \<open>split\<close>.
\<close>

fun decode_headers :: "mvalue option \<Rightarrow> error + string list" where
  "decode_headers None = Inr []"
| "decode_headers (Some (MStr s)) = Inr (if s \<noteq> [] then py_split '' > '' s else [])"
| "decode_headers (Some (MInt i)) = (if i = 0 then Inr [] else Inl TypeError)"
| "decode_headers (Some (MFloat r)) = (if r = 0 then Inr [] else Inl TypeError)"

definition metadata_to_chunk :: "metadata \<Rightarrow> string \<Rightarrow> error + chunk" where
  "metadata_to_chunk md cont =
     (let hdrs = map_of md ''headers''
      in bind_err (md_str md ''source_path'') (\<lambda>sp.
         bind_err (md_str md ''file_type'') (\<lambda>ft.
         bind_err (md_int md ''chunk_index'') (\<lambda>ci.
         bind_err (md_int md ''total_chunks'') (\<lambda>tc.
         bind_err (md_real md ''modified'') (\<lambda>mt.
         bind_err (md_int md ''char_start'') (\<lambda>cs.
         bind_err (md_int md ''char_end'') (\<lambda>ce.
         bind_err (decode_headers hdrs) (\<lambda>hs.
         bind_err (md_int md ''token_count'') (\<lambda>tk.
           Inr \<lparr>content = cont,
                source_path = sp,
                file_type = ft,
                chunk_index = ci,
                total_chunks = tc,
                modified = mt,
                char_start = cs,
                char_end = ce,
                headers = hs,
                token_count = tk\<rparr>))))))))))"

text \<open>
  Modelled from the spec: the primitives of the external vector database
  (\<open>collection.upsert\<close>, \<open>collection.get\<close> with an equality filter,
  \<open>collection.delete\<close>, \<open>collection.get\<close> of all metadata), which are not part of
  the repository's sources. The spec's index store holds at most one record per id,
  an upsert overwrites the record of the same id (last write wins), and a delete
  removes the records of the given ids. An upsert whose four lists differ in length
  is refused.
\<close>

definition coll_upsert ::
  "string list \<Rightarrow> string list \<Rightarrow> real list list \<Rightarrow> metadata list \<Rightarrow> collection
   \<Rightarrow> error + collection" where
  "coll_upsert ids documents embeddings metadatas coll =
     (if length documents = length ids \<and> length embeddings = length ids
         \<and> length metadatas = length ids
      then Inr (fold (\<lambda>(i, d, e, m). AList.update i
                   \<lparr>st_document = d, st_embedding = e, st_metadata = m\<rparr>)
                 (zip ids (zip documents (zip embeddings metadatas))) coll)
      else Inl StoreError)"

definition coll_get_where :: "collection \<Rightarrow> string \<Rightarrow> mvalue \<Rightarrow> string list" where
  "coll_get_where coll k v =
     map fst (filter (\<lambda>(i, r). map_of (st_metadata r) k = Some v) coll)"

definition coll_delete :: "string list \<Rightarrow> collection \<Rightarrow> collection" where
  "coll_delete ids coll = filter (\<lambda>(i, r). i \<notin> set ids) coll"

definition coll_get_metadatas :: "collection \<Rightarrow> metadata list" where
  "coll_get_metadatas coll = map (\<lambda>(i, r). st_metadata r) coll"

text \<open>The functions of \<open>vector_store\<close>; each returns the new store with its result.\<close>

definition upsert_chunks ::
  "(string \<Rightarrow> string) \<Rightarrow> collection \<Rightarrow> chunk list \<Rightarrow> real list list
   \<Rightarrow> error + (collection \<times> int)" where
  "upsert_chunks name_of coll chunks embeddings =
     (if chunks = [] then Inr (coll, 0)
      else
        (let ids = map make_chunk_id chunks;
             documents = map content chunks;
             metadatas = map (chunk_to_metadata name_of) chunks
         in bind_err (coll_upsert ids documents embeddings metadatas coll)
              (\<lambda>coll'. Inr (coll', int (length chunks)))))"

definition delete_by_source :: "collection \<Rightarrow> string \<Rightarrow> collection \<times> int" where
  "delete_by_source coll src =
     (let ids = coll_get_where coll ''source_path'' (MStr src)
      in if ids \<noteq> [] then (coll_delete ids coll, int (length ids)) else (coll, 0))"

text \<open>The expression \<open>1 / (1 + distance)\<close> of \<open>search\<close>, in float arithmetic.\<close>

definition score_of :: "pyfloat \<Rightarrow> error + pyfloat" where
  "score_of d = float_div (Fin 1) (float_add (Fin 1) d)"

text \<open>
  The loop of \<open>search\<close> over \<open>enumerate(results["ids"][0])\<close>: \<open>i\<close> is the index,
  the last argument the ids still to visit.
\<close>

fun search_loop :: "query_result \<Rightarrow> nat \<Rightarrow> string list \<Rightarrow> error + search_result list" where
  "search_loop results i [] = Inr []"
| "search_loop results i (doc_id # ids) =
     bind_err (bind_err (py_index (q_documents results) 0) (\<lambda>ds. py_index ds i)) (\<lambda>cont.
     bind_err (bind_err (py_index (q_metadatas results) 0) (\<lambda>ms. py_index ms i)) (\<lambda>md.
     bind_err (bind_err (py_index (q_distances results) 0) (\<lambda>ds. py_index ds i)) (\<lambda>dist.
     bind_err (score_of dist) (\<lambda>sc.
     bind_err (metadata_to_chunk md cont) (\<lambda>c.
     bind_err (search_loop results (Suc i) ids) (\<lambda>rest.
       Inr (\<lparr>sr_chunk = c, score = sc, distance = dist\<rparr> # rest)))))))"

text \<open>\<open>if filters:\<close> is false for \<open>None\<close> and for the empty dictionary.\<close>

definition query_where :: "metadata option \<Rightarrow> metadata option" where
  "query_where filters =
     (case filters of None \<Rightarrow> None | Some f \<Rightarrow> if f \<noteq> [] then Some f else None)"

definition search ::
  "externals \<Rightarrow> collection \<Rightarrow> real list \<Rightarrow> int \<Rightarrow> metadata option
   \<Rightarrow> error + search_result list" where
  "search ext coll query_embedding n_results filters =
     bind_err (coll_query ext coll [query_embedding] n_results (query_where filters))
       (\<lambda>results.
          if q_ids results \<noteq> [] \<and> hd (q_ids results) \<noteq> []
          then search_loop results 0 (hd (q_ids results))
          else Inr [])"

text \<open>
  The loop of \<open>get_indexed_files\<close>; the dictionary \<open>file_map\<close> keeps its insertion
  order.
\<close>

fun indexed_files_loop ::
  "metadata list \<Rightarrow> (string \<times> real) list \<Rightarrow> error + (string \<times> real) list" where
  "indexed_files_loop [] file_map = Inr file_map"
| "indexed_files_loop (md # mds) file_map =
     bind_err (md_str md ''source_path'') (\<lambda>src.
     bind_err (md_real md ''modified'') (\<lambda>mt.
       if map_of file_map src = None \<or> mt > the (map_of file_map src)
       then indexed_files_loop mds (AList.update src mt file_map)
       else indexed_files_loop mds file_map))"

definition get_indexed_files :: "collection \<Rightarrow> error + (string \<times> real) list" where
  "get_indexed_files coll = indexed_files_loop (coll_get_metadatas coll) []"

section \<open>Sync and query engine (\<open>search\<close> module)\<close>

text \<open>
  The reconcile loop of \<open>index_vault\<close> over the scanned documents. \<open>to_delete\<close>
  is a Python set, kept as a duplicate-free list.
\<close>

fun plan_loop ::
  "bool \<Rightarrow> (string \<times> real) list \<Rightarrow> document list \<Rightarrow> document list \<Rightarrow> string list
   \<Rightarrow> document list \<times> string list" where
  "plan_loop force indexed_files [] to_index to_delete = (to_index, to_delete)"
| "plan_loop force indexed_files (doc # documents) to_index to_delete =
     (let to_delete' = (if doc_path doc \<in> set to_delete
                        then removeAll (doc_path doc) to_delete else to_delete);
          indexed_mtime = (case map_of indexed_files (doc_path doc) of
                             Some m \<Rightarrow> m | None \<Rightarrow> 0)
      in if force \<or> doc_modified doc > indexed_mtime
         then plan_loop force indexed_files documents (to_index @ [doc]) to_delete'
         else plan_loop force indexed_files documents to_index to_delete')"

text \<open>
  The first half of \<open>index_vault\<close>: the indexed-files map (empty under \<open>force\<close>),
  then the reconcile loop started with every indexed path in \<open>to_delete\<close>. The scan
  of the vault folder is the argument \<open>documents\<close>.
\<close>

definition index_plan ::
  "collection \<Rightarrow> document list \<Rightarrow> bool \<Rightarrow> error + (document list \<times> string list)" where
  "index_plan coll documents force =
     bind_err (if \<not> force then get_indexed_files coll else Inr []) (\<lambda>indexed_files.
       Inr (plan_loop force indexed_files documents [] (map fst indexed_files)))"

text \<open>The loop \<open>for path in to_delete\<close>, in list order.\<close>

fun delete_loop :: "collection \<Rightarrow> string list \<Rightarrow> int \<Rightarrow> collection \<times> int" where
  "delete_loop coll [] deleted_count = (coll, deleted_count)"
| "delete_loop coll (p # ps) deleted_count =
     (case delete_by_source coll p of
        (coll', n) \<Rightarrow> delete_loop coll' ps (deleted_count + n))"

text \<open>The statistics that \<open>index_vault\<close> returns, without the elapsed time.\<close>

record index_stats =
  documents_scanned :: int
  documents_indexed :: int
  chunks_created :: int
  chunks_deleted :: int

definition index_vault ::
  "externals \<Rightarrow> collection \<Rightarrow> document list \<Rightarrow> bool \<Rightarrow> error + (collection \<times> index_stats)" where
  "index_vault ext coll documents force =
     bind_err (index_plan coll documents force) (\<lambda>(to_index, to_delete).
       case delete_loop coll to_delete 0 of (coll1, deleted_count) \<Rightarrow>
         if to_index = []
         then Inr (coll1, \<lparr>documents_scanned = int (length documents), documents_indexed = 0,
                           chunks_created = 0, chunks_deleted = deleted_count\<rparr>)
         else
           (let chunks = chunk_all ext to_index;
                texts = map content chunks
            in bind_err (model_encode_batch ext texts 32) (\<lambda>embeddings.
               bind_err (upsert_chunks (path_name ext) coll1 chunks embeddings) (\<lambda>(coll2, n).
                 Inr (coll2, \<lparr>documents_scanned = int (length documents),
                              documents_indexed = int (length to_index),
                              chunks_created = int (length chunks),
                              chunks_deleted = deleted_count\<rparr>)))))"

definition search_vault ::
  "externals \<Rightarrow> collection \<Rightarrow> string \<Rightarrow> int \<Rightarrow> metadata option \<Rightarrow> error + search_result list" where
  "search_vault ext coll query n_results filters =
     bind_err (model_encode ext query) (\<lambda>query_embedding.
       search ext coll query_embedding n_results filters)"

text \<open>
  What \<open>index_single_file\<close> sees of the file system at its path: the file is absent,
  or it is there with the result of \<open>extract_text\<close> (\<open>None\<close> when nothing could be
  extracted), its file type and its modification time.
\<close>

datatype file_view = Absent | Present "string option" string real

text \<open>\<open>index_single_file\<close>; \<open>p\<close> is \<open>str(path)\<close>.\<close>

definition index_single_file ::
  "externals \<Rightarrow> collection \<Rightarrow> string \<Rightarrow> file_view \<Rightarrow> error + (collection \<times> int)" where
  "index_single_file ext coll p view =
     (case view of
        Absent \<Rightarrow> (case delete_by_source coll p of (coll', n) \<Rightarrow> Inr (coll', - n))
      | Present extracted ftype mtime \<Rightarrow>
          if \<not> truthy extracted then Inr (coll, 0)
          else
            (let doc = \<lparr>doc_path = p, doc_content = the extracted,
                        doc_file_type = ftype, doc_modified = mtime\<rparr>;
                 chunks = chunk_all ext [doc]
             in if chunks = [] then Inr (coll, 0)
                else
                  (let texts = map content chunks
                   in bind_err (model_encode_batch ext texts 32) (\<lambda>embeddings.
                        case delete_by_source coll p of (coll1, n) \<Rightarrow>
                          bind_err (upsert_chunks (path_name ext) coll1 chunks embeddings)
                            (\<lambda>(coll2, m). Inr (coll2, int (length chunks)))))))"

text \<open>The records of the store whose metadata names a source path.\<close>

definition records_of_source :: "collection \<Rightarrow> string \<Rightarrow> (string \<times> stored) list" where
  "records_of_source coll src =
     filter (\<lambda>(i, r). map_of (st_metadata r) ''source_path'' = Some (MStr src)) coll"

section \<open>Example inputs\<close>

text \<open>The chunk of the repository's test \<open>test_chunk_dataclass\<close>.\<close>

definition example_chunk :: chunk where
  "example_chunk =
     \<lparr>content = ''Test content'', source_path = ''/test/path.md'', file_type = ''md'',
      chunk_index = 0, total_chunks = 1, modified = 1234567890,
      char_start = 0, char_end = 12, headers = [''# Header''], token_count = 2\<rparr>"

text \<open>
  Stand-ins for the collaborators, small enough to evaluate: a splitter that cuts at
  blank lines, a tokenizer with one token per character, an embedding of one
  coordinate, and a store query that finds nothing.
\<close>

definition no_results :: query_result where
  "no_results = \<lparr>q_ids = [[]], q_documents = [[]], q_metadatas = [[]], q_distances = [[]]\<rparr>"

definition para_ext :: externals where
  "para_ext =
     \<lparr>path_name = id,
      split_text = (\<lambda>spl s. py_split [CHR 0x0A, CHR 0x0A] s),
      enc_encode = map of_char,
      model_encode = (\<lambda>s. Inr [real (length s)]),
      model_encode_batch = (\<lambda>texts b. Inr (map (\<lambda>s. [real (length s)]) texts)),
      coll_query = (\<lambda>coll qs n wh. Inr no_results)\<rparr>"


text \<open>A note of two paragraphs under one title, and a later, shorter version of it.\<close>

definition note_v1 :: document where
  "note_v1 =
     \<lparr>doc_path = ''/v/a.md'',
      doc_content = ''# T'' @ [CHR 0x0A, CHR 0x0A] @ ''two'',
      doc_file_type = ''md'', doc_modified = 100\<rparr>"

definition note_v2 :: document where
  "note_v2 =
     \<lparr>doc_path = ''/v/a.md'', doc_content = ''# T'',
      doc_file_type = ''md'', doc_modified = 200\<rparr>"

text \<open>
  The stack that the three variables of \<open>extract_headers\<close> stand for: the levels
  that are set, outermost first.
\<close>

definition stack_of ::
  "string option \<times> string option \<times> string option \<Rightarrow> (nat \<times> string) list" where
  "stack_of st =
     (case st of (h1, h2, h3) \<Rightarrow>
        (case h1 of Some a \<Rightarrow> [(1, a)] | None \<Rightarrow> []) @
        (case h2 of Some b \<Rightarrow> [(2, b)] | None \<Rightarrow> []) @
        (case h3 of Some c \<Rightarrow> [(3, c)] | None \<Rightarrow> []))"




text \<open>A text with headers of four levels, one line each.\<close>

definition headed_text :: string where
  "headed_text =
     ''# A'' @ [CHR 0x0A] @ ''## B'' @ [CHR 0x0A] @ ''### C'' @ [CHR 0x0A] @
     ''#### D'' @ [CHR 0x0A] @ ''## E'' @ [CHR 0x0A] @ ''text''"

text \<open>None of the three variables holds the empty string.\<close>

definition set_nonempty :: "string option \<times> string option \<times> string option \<Rightarrow> bool" where
  "set_nonempty st =
     (case st of (h1, h2, h3) \<Rightarrow> h1 \<noteq> Some [] \<and> h2 \<noteq> Some [] \<and> h3 \<noteq> Some [])"

text \<open>Collaborators that fail: an embedding model that raises, a store query that raises.\<close>

definition failing_embed_ext :: externals where
  "failing_embed_ext = para_ext\<lparr>model_encode := (\<lambda>s. Inl EmbeddingError)\<rparr>"

definition failing_store_ext :: externals where
  "failing_store_ext = para_ext\<lparr>coll_query := (\<lambda>coll qs n wh. Inl StoreError)\<rparr>"

text \<open>
  The floats written \<open>0.1\<close> and \<open>0.5\<close>, and the float \<open>2 ** -60\<close>.
\<close>

definition tenth :: pyfloat where
  "tenth = to_double (1 / 10)"

definition half :: pyfloat where
  "half = to_double (1 / 2)"

definition close_to_zero :: pyfloat where
  "close_to_zero = Fin (1 / 2 ^ 60)"

text \<open>
  A store answer with two hits \<open>a\<close> and \<open>b\<close> at distances 0.1 and 0.5, and a
  store that gives this answer.
\<close>

definition two_hits :: query_result where
  "two_hits =
     \<lparr>q_ids = [[''a'', ''b'']],
      q_documents = [[''first'', ''second'']],
      q_metadatas = [[chunk_to_metadata id (example_chunk\<lparr>content := ''first''\<rparr>),
                      chunk_to_metadata id (example_chunk\<lparr>content := ''second''\<rparr>)]],
      q_distances = [[tenth, half]]\<rparr>"

definition two_hits_ext :: externals where
  "two_hits_ext = para_ext\<lparr>coll_query := (\<lambda>coll qs n wh. Inr two_hits)\<rparr>"

text \<open>
  A store answer with three hits at the distances 0, \<open>2 ** -60\<close> and infinity, and
  a store that gives this answer.
\<close>

definition three_hits :: query_result where
  "three_hits =
     \<lparr>q_ids = [[''a'', ''b'', ''c'']],
      q_documents = [[''first'', ''second'', ''third'']],
      q_metadatas = [[chunk_to_metadata id (example_chunk\<lparr>content := ''first''\<rparr>),
                      chunk_to_metadata id (example_chunk\<lparr>content := ''second''\<rparr>),
                      chunk_to_metadata id (example_chunk\<lparr>content := ''third''\<rparr>)]],
      q_distances = [[Fin 0, close_to_zero, PInf]]\<rparr>"

definition three_hits_ext :: externals where
  "three_hits_ext = para_ext\<lparr>coll_query := (\<lambda>coll qs n wh. Inr three_hits)\<rparr>"




text \<open>
  A chunk under the headers \<open># a >\<close> and \<open>## b\<close>: neither header contains the
  delimiter, the first one ends with a space and a \<open>>\<close>.
\<close>

definition arrow_chunk :: chunk where
  "arrow_chunk = example_chunk\<lparr>headers := [''# a >'', ''## b'']\<rparr>"

text \<open>
  A store that holds one chunk of \<open>A\<close> and one of \<open>B\<close>, both indexed at time 100;
  a fresh scan in which \<open>A\<close> is unchanged, \<open>B\<close> is newer and \<open>C\<close> is new; and a
  document whose modification time is the epoch.
\<close>

definition stored_chunk :: "string \<Rightarrow> real \<Rightarrow> string \<times> stored" where
  "stored_chunk p t =
     (make_chunk_id (example_chunk\<lparr>source_path := p\<rparr>),
      \<lparr>st_document = ''Test content'', st_embedding = [12],
       st_metadata = chunk_to_metadata id (example_chunk\<lparr>source_path := p, modified := t\<rparr>)\<rparr>)"

definition store_ab :: collection where
  "store_ab = [stored_chunk ''A'' 100, stored_chunk ''B'' 100]"

definition scanned :: "string \<Rightarrow> real \<Rightarrow> document" where
  "scanned p t = \<lparr>doc_path = p, doc_content = ''text'', doc_file_type = ''md'', doc_modified = t\<rparr>"

definition scan_abc :: "document list" where
  "scan_abc = [scanned ''A'' 100, scanned ''B'' 200, scanned ''C'' 50]"

definition epoch_doc :: document where
  "epoch_doc = scanned ''E'' 0"

text \<open>
  The store after a first run of \<open>index_vault\<close> on the two-paragraph note, and after a
  second run on its shorter version.
\<close>

definition store_after_v1 :: collection where
  "store_after_v1 =
     (case index_vault para_ext [] [note_v1] False of
        Inr (coll, stats) \<Rightarrow> coll | Inl e \<Rightarrow> [])"

definition store_after_v2 :: collection where
  "store_after_v2 =
     (case index_vault para_ext store_after_v1 [note_v2] False of
        Inr (coll, stats) \<Rightarrow> coll | Inl e \<Rightarrow> [])"

text \<open>
  The store after the first run, when the shorter version arrives through
  \<open>index_single_file\<close> instead.
\<close>

definition store_after_single :: collection where
  "store_after_single =
     (case index_single_file para_ext store_after_v1 ''/v/a.md''
             (Present (Some ''# T'') ''md'' 200) of
        Inr (coll, n) \<Rightarrow> coll | Inl e \<Rightarrow> [])"

text \<open>The characters of a decimal index: the ten digits and the minus sign.\<close>

definition is_index_char :: "char \<Rightarrow> bool" where
  "is_index_char c = ((48 \<le> (of_char c :: nat) \<and> (of_char c :: nat) \<le> 57) \<or> c = CHR ''-'')"

section \<open>Decimal representation lemmas\<close>

lemma of_char_digit_char: "d < 10 \<Longrightarrow> (of_char (digit_char d) :: nat) = 48 + d"
proof -
  assume "d < 10"
  then have "d \<in> {0, 1, 2, 3, 4, 5, 6, 7, 8, 9}" by auto
  then show ?thesis by (auto simp: digit_char_def)
qed

lemma digit_char_inj: "d < 10 \<Longrightarrow> e < 10 \<Longrightarrow> digit_char d = digit_char e \<Longrightarrow> d = e"
proof -
  assume d: "d < 10" and e: "e < 10" and eq: "digit_char d = digit_char e"
  from eq have "(of_char (digit_char d) :: nat) = of_char (digit_char e)" by simp
  with d e show "d = e" by (simp add: of_char_digit_char)
qed

lemma is_index_char_digit: "d < 10 \<Longrightarrow> is_index_char (digit_char d)"
  by (simp add: is_index_char_def of_char_digit_char)

lemma dec_nat_not_Nil: "dec_nat n \<noteq> []"
  by (subst dec_nat.simps) simp

lemma dec_nat_index_chars: "list_all is_index_char (dec_nat n)"
proof (induction n rule: dec_nat.induct)
  case (1 n)
  show ?case
  proof (cases "n < 10")
    case True
    then show ?thesis by (subst dec_nat.simps) (simp add: is_index_char_digit)
  next
    case False
    with "1" have "list_all is_index_char (dec_nat (n div 10))" by simp
    moreover have "is_index_char (digit_char (n mod 10))" by (simp add: is_index_char_digit)
    ultimately show ?thesis using False by (subst dec_nat.simps) simp
  qed
qed

lemma dec_nat_inj: "dec_nat n = dec_nat m \<Longrightarrow> n = m"
proof (induction n arbitrary: m rule: dec_nat.induct)
  case (1 n)
  show ?case
  proof (cases "n < 10")
    case n: True
    show ?thesis
    proof (cases "m < 10")
      case True
      with n "1.prems" show ?thesis
        by (simp add: dec_nat.simps [of n] dec_nat.simps [of m] digit_char_inj)
    next
      case False
      with n "1.prems" dec_nat_not_Nil [of "m div 10"] show ?thesis
        by (simp add: dec_nat.simps [of n] dec_nat.simps [of m])
    qed
  next
    case n: False
    show ?thesis
    proof (cases "m < 10")
      case True
      with n "1.prems" dec_nat_not_Nil [of "n div 10"] show ?thesis
        by (simp add: dec_nat.simps [of n] dec_nat.simps [of m])
    next
      case False
      with n "1.prems" have eq: "dec_nat (n div 10) = dec_nat (m div 10)"
        and dg: "digit_char (n mod 10) = digit_char (m mod 10)"
        by (simp_all add: dec_nat.simps [of n] dec_nat.simps [of m])
      from "1.IH" [OF n eq] have "n div 10 = m div 10" .
      moreover from dg have "n mod 10 = m mod 10" by (simp add: digit_char_inj)
      ultimately show ?thesis by (metis div_mult_mod_eq)
    qed
  qed
qed

lemma dec_nat_no_minus: "hd (dec_nat n) \<noteq> CHR ''-''"
proof (induction n rule: dec_nat.induct)
  case (1 n)
  show ?case
  proof (cases "n < 10")
    case True
    have "(of_char (digit_char n) :: nat) \<noteq> of_char (CHR ''-'')"
      using True by (simp add: of_char_digit_char)
    then have "digit_char n \<noteq> CHR ''-''" by auto
    then show ?thesis using True by (subst dec_nat.simps) simp
  next
    case False
    with "1" have "hd (dec_nat (n div 10)) \<noteq> CHR ''-''" by simp
    then show ?thesis using False dec_nat_not_Nil [of "n div 10"]
      by (subst dec_nat.simps) simp
  qed
qed

lemma py_str_int_inj: "py_str_int i = py_str_int j \<Longrightarrow> i = j"
proof -
  assume eq: "py_str_int i = py_str_int j"
  have neg_pos: "CHR ''-'' # dec_nat a \<noteq> dec_nat b" for a b
  proof
    assume "CHR ''-'' # dec_nat a = dec_nat b"
    then have "hd (dec_nat b) = CHR ''-''" by (metis list.sel(1))
    with dec_nat_no_minus show False by blast
  qed
  show "i = j"
  proof (cases "i < 0")
    case i: True
    show ?thesis
    proof (cases "j < 0")
      case True
      with i eq have "nat (- i) = nat (- j)" by (simp add: py_str_int_def dec_nat_inj)
      with i True show ?thesis by simp
    next
      case False
      with i eq neg_pos show ?thesis by (simp add: py_str_int_def)
    qed
  next
    case i: False
    show ?thesis
    proof (cases "j < 0")
      case True
      with i eq neg_pos [of "nat (- j)" "nat i"] show ?thesis
        by (simp add: py_str_int_def)
    next
      case False
      with i eq have "nat i = nat j" by (simp add: py_str_int_def dec_nat_inj)
      with i False show ?thesis by simp
    qed
  qed
qed

lemma py_str_int_index_chars: "list_all is_index_char (py_str_int i)"
  by (simp add: py_str_int_def dec_nat_index_chars is_index_char_def)

section \<open>Chunk identity: separators and injectivity\<close>

lemma normalize_sep_equiv:
  "same_up_to_separators p q \<Longrightarrow> normalize_path p = normalize_path q"
  unfolding same_up_to_separators_def
  by (induction p q rule: list_all2_induct)
     (auto simp: normalize_path_def py_replace_char_def is_sep_def)

lemma normalize_eq_sep_equiv:
  "normalize_path p = normalize_path q \<Longrightarrow> same_up_to_separators p q"
  unfolding same_up_to_separators_def py_replace_char_def normalize_path_def
proof (induction p arbitrary: q)
  case Nil
  then show ?case by simp
next
  case (Cons a p)
  then obtain b q' where q: "q = b # q'" by (cases q) auto
  with Cons show ?case by (auto simp: is_sep_def split: if_splits)
qed

lemma tail_unique:
  assumes "list_all P d1" "list_all P d2" "\<not> P c" "a @ c # d1 = b @ c # d2"
  shows "a = b \<and> d1 = d2"
proof -
  have tw: "takeWhile P (rev (x @ c # d)) = rev d" if "list_all P d" for x d
    using that assms(3) by (simp add: takeWhile_tail list_all_iff)
  from assms(4) have "takeWhile P (rev (a @ c # d1)) = takeWhile P (rev (b @ c # d2))"
    by simp
  then have "d1 = d2" using tw assms(1,2) by simp
  with assms(4) show ?thesis by simp
qed

text \<open>
  Claim C4. Chunk identity is path-separator-invariant: two source paths that differ
  only in the direction of their separators give the same id at every chunk index
  (the other fields of the chunk do not matter); in particular \<open>a/b.md\<close> and
  \<open>a\b.md\<close> collide.
\<close>

theorem make_chunk_id_separator_invariant:
  "same_up_to_separators p q \<Longrightarrow>
     make_chunk_id (c\<lparr>source_path := p, chunk_index := i\<rparr>) =
     make_chunk_id (d\<lparr>source_path := q, chunk_index := i\<rparr>)"
  by (simp add: make_chunk_id_def normalize_sep_equiv)

theorem make_chunk_id_separator_invariant_witness:
  "same_up_to_separators ''a/b.md'' (''a'' @ CHR 0x5C # ''b.md'') \<and>
   make_chunk_id (example_chunk\<lparr>source_path := ''a/b.md'', chunk_index := 3\<rparr>) =
   make_chunk_id (example_chunk\<lparr>source_path := ''a'' @ CHR 0x5C # ''b.md'', chunk_index := 3\<rparr>) \<and>
   make_chunk_id (example_chunk\<lparr>source_path := ''a/b.md'', chunk_index := 3\<rparr>) = ''a/b.md::chunk_3''"
proof -
  have h: "same_up_to_separators ''a/b.md'' (''a'' @ CHR 0x5C # ''b.md'')"
    by (simp add: same_up_to_separators_def is_sep_def)
  have v: "make_chunk_id (example_chunk\<lparr>source_path := ''a/b.md'', chunk_index := 3\<rparr>) = ''a/b.md::chunk_3''"
    by (simp add: make_chunk_id_def normalize_path_def py_replace_char_def py_str_int_def
        dec_nat.simps digit_char_def)
  from h v make_chunk_id_separator_invariant [OF h, where c = example_chunk and i = 3 and d = example_chunk] show ?thesis by simp
qed

text \<open>
  Claim C10. Chunk-id generation is injective up to path normalization: two chunks
  get the same id exactly when their source paths agree up to the direction of the
  separators and their chunk indices are equal. The decimal index holds only digits
  and a minus sign, so the text after the last underscore of an id is the index and
  what stands before the marker is the normalized path, also when the path itself
  ends in \<open>::chunk_\<close> and digits.
\<close>

theorem make_chunk_id_injective:
  "make_chunk_id c1 = make_chunk_id c2 \<longleftrightarrow>
     same_up_to_separators (source_path c1) (source_path c2)
     \<and> chunk_index c1 = chunk_index c2"
proof
  assume eq: "make_chunk_id c1 = make_chunk_id c2"
  let ?n1 = "normalize_path (source_path c1)"
  let ?n2 = "normalize_path (source_path c2)"
  have us: "\<not> is_index_char (CHR ''_'')" by (simp add: is_index_char_def)
  from eq have "(?n1 @ ''::chunk'') @ CHR ''_'' # py_str_int (chunk_index c1)
              = (?n2 @ ''::chunk'') @ CHR ''_'' # py_str_int (chunk_index c2)"
    by (simp add: make_chunk_id_def)
  from tail_unique [OF py_str_int_index_chars py_str_int_index_chars us this]
  have "?n1 @ ''::chunk'' = ?n2 @ ''::chunk''"
    and "py_str_int (chunk_index c1) = py_str_int (chunk_index c2)" by simp_all
  then show "same_up_to_separators (source_path c1) (source_path c2)
     \<and> chunk_index c1 = chunk_index c2"
    by (simp add: py_str_int_inj normalize_eq_sep_equiv)
next
  assume "same_up_to_separators (source_path c1) (source_path c2)
     \<and> chunk_index c1 = chunk_index c2"
  then show "make_chunk_id c1 = make_chunk_id c2"
    by (simp add: make_chunk_id_def normalize_sep_equiv)
qed

theorem make_chunk_id_injective_witness:
  "make_chunk_id (example_chunk\<lparr>source_path := ''a/b'', chunk_index := 7\<rparr>)
     = make_chunk_id (example_chunk\<lparr>source_path := ''a'' @ CHR 0x5C # ''b'', chunk_index := 7\<rparr>)
   \<and> make_chunk_id (example_chunk\<lparr>source_path := ''a/b'', chunk_index := 7\<rparr>)
     \<noteq> make_chunk_id (example_chunk\<lparr>source_path := ''a/b'', chunk_index := 8\<rparr>)
   \<and> make_chunk_id (example_chunk\<lparr>source_path := ''a::chunk_1'', chunk_index := 2\<rparr>)
     \<noteq> make_chunk_id (example_chunk\<lparr>source_path := ''a'', chunk_index := 2\<rparr>)
   \<and> make_chunk_id (example_chunk\<lparr>source_path := ''a::chunk_1'', chunk_index := 2\<rparr>)
     = ''a::chunk_1::chunk_2''"
proof -
  have s: "same_up_to_separators ''a/b'' (''a'' @ CHR 0x5C # ''b'')"
    "same_up_to_separators ''a/b'' ''a/b''"
    "\<not> same_up_to_separators ''a::chunk_1'' ''a''"
    by (simp_all add: same_up_to_separators_def is_sep_def)
  have v: "make_chunk_id (example_chunk\<lparr>source_path := ''a::chunk_1'', chunk_index := 2\<rparr>)
     = ''a::chunk_1::chunk_2''"
    by (simp add: make_chunk_id_def normalize_path_def py_replace_char_def py_str_int_def
        dec_nat.simps digit_char_def)
  from s v
    make_chunk_id_injective [of "example_chunk\<lparr>source_path := ''a/b'', chunk_index := 7\<rparr>"
      "example_chunk\<lparr>source_path := ''a'' @ CHR 0x5C # ''b'', chunk_index := 7\<rparr>"]
    make_chunk_id_injective [of "example_chunk\<lparr>source_path := ''a/b'', chunk_index := 7\<rparr>"
      "example_chunk\<lparr>source_path := ''a/b'', chunk_index := 8\<rparr>"]
    make_chunk_id_injective [of "example_chunk\<lparr>source_path := ''a::chunk_1'', chunk_index := 2\<rparr>"
      "example_chunk\<lparr>source_path := ''a'', chunk_index := 2\<rparr>"]
  show ?thesis by simp
qed

section \<open>Chunk indices and the final count\<close>

lemma length_chunk_loop: "length (chunk_loop ext doc n i pos texts) = length texts"
  by (induction texts arbitrary: i pos) (simp_all add: Let_def)

lemma chunk_index_chunk_loop:
  "map chunk_index (chunk_loop ext doc n i pos texts) = map int [i..<i + length texts]"
proof (induction texts arbitrary: i pos)
  case Nil
  show ?case by simp
next
  case (Cons t texts)
  have "[i..<i + length (t # texts)] = i # [Suc i..<Suc i + length texts]"
    by (simp add: upt_rec)
  with Cons show ?case by (simp add: Let_def)
qed

lemma length_chunk_document:
  "length (chunk_document ext doc spl) = length (split_text ext spl (doc_content doc))"
  by (simp add: chunk_document_def Let_def length_chunk_loop)

text \<open>
  Claim C5. In the chunk list of one chunking pass the chunk indices are
  \<open>0, 1, 2, \<dots>\<close> in order, every chunk carries the same \<open>total_chunks\<close>, which
  is the final number of chunks, and so \<open>0 \<le> chunk_index < total_chunks\<close> for
  every chunk. This holds whatever the splitter returns.
\<close>

theorem chunk_document_indices:
  "map chunk_index (chunk_document ext doc spl)
     = map int [0..<length (chunk_document ext doc spl)]
   \<and> (\<forall>c \<in> set (chunk_document ext doc spl).
         total_chunks c = int (length (chunk_document ext doc spl))
         \<and> 0 \<le> chunk_index c \<and> chunk_index c < total_chunks c)"
proof -
  let ?cs = "chunk_document ext doc spl"
  let ?texts = "split_text ext spl (doc_content doc)"
  have idx: "map chunk_index ?cs = map int [0..<length ?cs]"
    using chunk_index_chunk_loop [of ext doc "length ?texts" 0 0 ?texts]
    by (simp add: chunk_document_def Let_def length_chunk_loop comp_def)
  have tot: "total_chunks c = int (length ?cs)" if "c \<in> set ?cs" for c
    using that by (auto simp: chunk_document_def Let_def)
  have rng: "0 \<le> chunk_index c \<and> chunk_index c < int (length ?cs)" if "c \<in> set ?cs" for c
  proof -
    from that obtain k where k: "k < length ?cs" and c: "c = ?cs ! k"
      by (auto simp: in_set_conv_nth)
    have "chunk_index (?cs ! k) = map chunk_index ?cs ! k" using k by simp
    also have "\<dots> = int k" using k by (simp only: idx) simp
    finally show ?thesis using k c by simp
  qed
  from idx tot rng show ?thesis by auto
qed

theorem chunk_document_indices_witness:
  "length (chunk_document para_ext note_v1 get_splitter) = 2 \<and>
   map chunk_index (chunk_document para_ext note_v1 get_splitter) = [0, 1] \<and>
   list_all (\<lambda>c. total_chunks c = 2 \<and> 0 \<le> chunk_index c \<and> chunk_index c < total_chunks c)
     (chunk_document para_ext note_v1 get_splitter)"
proof -
  have len: "length (chunk_document para_ext note_v1 get_splitter) = 2"
    by code_simp
  have up: "[0..<2] = [0, Suc 0]"
    by (simp add: upt_rec)
  from chunk_document_indices [of para_ext note_v1 get_splitter] len up
  show ?thesis by (auto simp: list_all_iff)
qed

section \<open>Header lineage\<close>

lemma hashes_prefix:
  "prefix (replicate k (CHR ''#'') @ '' '') line \<longleftrightarrow>
     length (takeWhile (\<lambda>c. c = CHR ''#'') line) = k \<and> prefix '' '' (drop k line)"
proof (induction k arbitrary: line)
  case 0
  show ?case by (cases line) auto
next
  case (Suc k)
  show ?case
  proof (cases line)
    case Nil
    then show ?thesis by simp
  next
    case (Cons c cs)
    with Suc [of cs] show ?thesis by auto
  qed
qed

lemma level_1: "prefix ''# '' line \<longleftrightarrow> spec_header_level line = Some 1"
  using hashes_prefix [of 1 line] by (auto simp: spec_header_level_def Let_def)

lemma level_2: "prefix ''## '' line \<longleftrightarrow> spec_header_level line = Some 2"
  using hashes_prefix [of 2 line] by (auto simp: spec_header_level_def Let_def numeral_2_eq_2)

lemma level_3: "prefix ''### '' line \<longleftrightarrow> spec_header_level line = Some 3"
  using hashes_prefix [of 3 line] by (auto simp: spec_header_level_def Let_def numeral_3_eq_3)

lemma not_double: "prefix ''# '' line \<Longrightarrow> \<not> prefix ''##'' line"
  by (auto simp: prefix_def)

lemma not_triple: "prefix ''## '' line \<Longrightarrow> \<not> prefix ''###'' line"
  by (auto simp: prefix_def)

lemma level_positive: "spec_header_level line = Some n \<Longrightarrow> 1 \<le> n"
  by (auto simp: spec_header_level_def Let_def split: if_splits)

lemma header_step_level:
  "header_step (h1, h2, h3) line =
     (case spec_header_level line of
        None \<Rightarrow> (h1, h2, h3)
      | Some n \<Rightarrow> if n = 1 then (Some line, None, None)
                  else if n = 2 then (h1, Some line, None)
                  else if n = 3 then (h1, h2, Some line)
                  else (h1, h2, h3))"
proof (cases "spec_header_level line")
  case None
  then show ?thesis
    using level_1 [of line] level_2 [of line] level_3 [of line]
    by (simp add: header_step_def)
next
  case (Some n)
  then show ?thesis
    using level_1 [of line] level_2 [of line] level_3 [of line]
      not_double [of line] not_triple [of line]
    by (auto simp: header_step_def)
qed

lemma stack_step_refines:
  "spec_stack_step (stack_of st) line = stack_of (header_step st line)"
proof -
  obtain h1 h2 h3 where st: "st = (h1, h2, h3)" by (cases st) auto
  show ?thesis
  proof (cases "spec_header_level line")
    case None
    then show ?thesis by (simp add: st header_step_level spec_stack_step_def)
  next
    case (Some n)
    from level_positive [OF Some] have "n = 1 \<or> n = 2 \<or> n = 3 \<or> 3 < n" by arith
    with Some show ?thesis
      unfolding st header_step_level
      by (cases h1; cases h2; cases h3) (auto simp: spec_stack_step_def stack_of_def)
  qed
qed

lemma foldl_refines:
  "foldl spec_stack_step (stack_of st) lines = stack_of (foldl header_step st lines)"
  by (induction lines arbitrary: st) (simp_all add: stack_step_refines)

lemma header_step_nonempty: "set_nonempty st \<Longrightarrow> set_nonempty (header_step st line)"
  by (cases st) (auto simp: header_step_def set_nonempty_def)

lemma foldl_nonempty: "set_nonempty st \<Longrightarrow> set_nonempty (foldl header_step st lines)"
  by (induction lines arbitrary: st) (simp_all add: header_step_nonempty)

lemma append_ifs_stack:
  "set_nonempty (h1, h2, h3) \<Longrightarrow>
     append_if (append_if (append_if [] h1) h2) h3 = map snd (stack_of (h1, h2, h3))"
  by (cases h1; cases h2; cases h3) (auto simp: append_if_def stack_of_def set_nonempty_def)

lemma length_stack_of: "length (stack_of st) \<le> 3"
  by (cases st) (auto simp: stack_of_def split: option.splits)

text \<open>
  Claim C6. The header lineage at a chunk start offset is what the spec's three-level
  stack gives on the lines of the content before that offset (the last of them may be
  cut by the offset): a level-1 header clears levels 2 and 3, a level-2 header clears
  level 3, a level-3 header replaces level 3, headers of level 4 or deeper and all
  other lines change nothing, and the result lists the active levels outermost first,
  so it has at most three elements.
\<close>

theorem extract_headers_lineage:
  "extract_headers cont pos = spec_header_lineage (py_split [CHR 0x0A] (py_slice_to cont pos))
   \<and> length (extract_headers cont pos) \<le> 3"
proof -
  let ?lines = "py_split [CHR 0x0A] (py_slice_to cont pos)"
  obtain h1 h2 h3 where f: "foldl header_step (None, None, None) ?lines = (h1, h2, h3)"
    by (cases "foldl header_step (None, None, None) ?lines") auto
  have "set_nonempty (None, None, None)" by (simp add: set_nonempty_def)
  from foldl_nonempty [OF this, of ?lines] f have ne: "set_nonempty (h1, h2, h3)" by simp
  have hs: "extract_headers cont pos = map snd (stack_of (h1, h2, h3))"
    using f by (simp add: extract_headers_def Let_def append_ifs_stack [OF ne])
  moreover have "stack_of (None, None, None) = []" by (simp add: stack_of_def)
  ultimately have eq: "extract_headers cont pos = spec_header_lineage ?lines"
    using foldl_refines [of "(None, None, None)" ?lines] f
    by (simp add: spec_header_lineage_def)
  have "length (extract_headers cont pos) \<le> 3"
    using hs length_stack_of [of "(h1, h2, h3)"] by simp
  with eq show ?thesis by simp
qed

theorem extract_headers_lineage_witness:
  "extract_headers headed_text 23 = [''# A'', ''## B'', ''### C''] \<and>
   spec_header_lineage (py_split [CHR 0x0A] (py_slice_to headed_text 23))
     = [''# A'', ''## B'', ''### C''] \<and>
   extract_headers headed_text 30 = [''# A'', ''## E''] \<and>
   spec_header_lineage (py_split [CHR 0x0A] (py_slice_to headed_text 30))
     = [''# A'', ''## E'']"
proof -
  have a: "extract_headers headed_text 23 = [''# A'', ''## B'', ''### C'']"
    by code_simp
  have b: "extract_headers headed_text 30 = [''# A'', ''## E'']"
    by code_simp
  from a b extract_headers_lineage [of headed_text 23] extract_headers_lineage [of headed_text 30]
  show ?thesis by simp
qed

section \<open>Small inputs of the chunker\<close>




lemma strip_nonempty: "py_strip s \<noteq> [] \<Longrightarrow> s \<noteq> []"
  by (auto simp: py_strip_def)














section \<open>Rounding to the nearest double\<close>

lemma tiny_pos: "0 < tiny"
  by (simp add: tiny_def)

lemma nat_53 [simp]: "nat (53 + int j) = 53 + j"
  by arith

lemma nat_52 [simp]: "nat (53 + int j) - Suc 0 = 52 + j"
  by arith

lemma rhe_eqI: "\<bar>q - of_int k\<bar> < 1 / 2 \<Longrightarrow> round_half_even q = k"
proof -
  assume a: "\<bar>q - of_int k\<bar> < 1 / 2"
  show ?thesis
  proof (cases "of_int k \<le> q")
    case True
    with a have "\<lfloor>q\<rfloor> = k" by (intro floor_unique) auto
    with a True show ?thesis by (simp add: round_half_even_def Let_def)
  next
    case False
    with a have f: "\<lfloor>q\<rfloor> = k - 1" by (intro floor_unique) auto
    from a False have "q - of_int (k - 1) > 1 / 2" by simp
    with f show ?thesis by (simp add: round_half_even_def Let_def)
  qed
qed

lemma rhe_int: "round_half_even (of_int k) = k"
  by (rule rhe_eqI) simp

lemma rhe_range: "\<lfloor>q\<rfloor> \<le> round_half_even q \<and> round_half_even q \<le> \<lfloor>q\<rfloor> + 1"
  by (simp add: round_half_even_def Let_def)

lemma rhe_mono: "q1 \<le> q2 \<Longrightarrow> round_half_even q1 \<le> round_half_even q2"
proof -
  assume le: "q1 \<le> q2"
  then have fl: "\<lfloor>q1\<rfloor> \<le> \<lfloor>q2\<rfloor>" by (rule floor_mono)
  show ?thesis
  proof (cases "\<lfloor>q1\<rfloor> = \<lfloor>q2\<rfloor>")
    case True
    with le show ?thesis by (auto simp: round_half_even_def Let_def)
  next
    case False
    with fl have "\<lfloor>q1\<rfloor> + 1 \<le> \<lfloor>q2\<rfloor>" by simp
    with rhe_range [of q1] rhe_range [of q2] show ?thesis by linarith
  qed
qed

lemma bitlen_mono: "a \<le> b \<Longrightarrow> bitlen a \<le> bitlen b"
proof (cases "0 < b")
  case True
  assume "a \<le> b"
  with bitlen_bounds [OF True] have "a < 2 ^ nat (bitlen b)" by simp
  then show ?thesis by (simp add: bitlen_le_iff_power bitlen_nonneg)
next
  case False
  assume "a \<le> b"
  with False have "bitlen a = 0" by (simp add: bitlen_eq_zero_iff)
  then show ?thesis by (simp add: bitlen_nonneg)
qed

lemma ulp_exp_mono: "x \<le> y \<Longrightarrow> ulp_exp x \<le> ulp_exp y"
proof -
  assume "x \<le> y"
  then have "x / tiny \<le> y / tiny" using tiny_pos by (simp add: divide_right_mono)
  then have "\<lfloor>x / tiny\<rfloor> \<le> \<lfloor>y / tiny\<rfloor>" by (rule floor_mono)
  then have "bitlen \<lfloor>x / tiny\<rfloor> \<le> bitlen \<lfloor>y / tiny\<rfloor>" by (rule bitlen_mono)
  then show ?thesis by (simp add: ulp_exp_def)
qed

lemma ulp_upper: "x / tiny < 2 ^ (53 + ulp_exp x)"
proof -
  let ?n = "\<lfloor>x / tiny\<rfloor>"
  have "bitlen ?n \<le> int (53 + ulp_exp x)" by (simp add: ulp_exp_def)
  then have "?n < 2 ^ (53 + ulp_exp x)" by (simp add: bitlen_le_iff_power)
  then have "?n + 1 \<le> 2 ^ (53 + ulp_exp x)" by simp
  then have "real_of_int (?n + 1) \<le> real_of_int (2 ^ (53 + ulp_exp x))"
    by (simp only: of_int_le_iff)
  then have a: "real_of_int ?n + 1 \<le> 2 ^ (53 + ulp_exp x)" by simp
  have "x / tiny < real_of_int ?n + 1" by linarith
  with a show ?thesis by linarith
qed

lemma ulp_lower: "0 < ulp_exp x \<Longrightarrow> 2 ^ (52 + ulp_exp x) \<le> x / tiny"
proof -
  let ?n = "\<lfloor>x / tiny\<rfloor>"
  assume p: "0 < ulp_exp x"
  then have "int (53 + ulp_exp x) \<le> bitlen ?n" by (simp add: ulp_exp_def)
  then have "2 ^ (nat (int (53 + ulp_exp x)) - 1) \<le> ?n"
    by (simp only: bitlen_ge_iff_power) simp
  then have "(2::int) ^ (52 + ulp_exp x) \<le> ?n" by simp
  then have "real_of_int (2 ^ (52 + ulp_exp x)) \<le> real_of_int ?n"
    by (simp only: of_int_le_iff)
  then have a: "2 ^ (52 + ulp_exp x) \<le> real_of_int ?n" by simp
  have "real_of_int ?n \<le> x / tiny" by (rule of_int_floor_le)
  with a show ?thesis by linarith
qed

lemma ulp_exp_eqI:
  assumes "2 ^ (52 + j) * tiny \<le> x" and "x < 2 ^ (53 + j) * tiny"
  shows "ulp_exp x = j"
proof -
  from assms tiny_pos have lo: "2 ^ (52 + j) \<le> x / tiny" and hi: "x / tiny < 2 ^ (53 + j)"
    by (simp_all add: field_simps)
  let ?n = "\<lfloor>x / tiny\<rfloor>"
  from lo have "real_of_int (2 ^ (52 + j)) \<le> x / tiny" by simp
  then have l: "(2::int) ^ (52 + j) \<le> ?n" by (simp only: le_floor_iff)
  from hi have "x / tiny < real_of_int (2 ^ (53 + j))" by simp
  then have h: "?n < 2 ^ (53 + j)" by (simp only: floor_less_iff)
  from h have "bitlen ?n \<le> int (53 + j)" by (simp add: bitlen_le_iff_power)
  moreover from l have "int (53 + j) \<le> bitlen ?n"
    by (simp only: bitlen_ge_iff_power) simp
  ultimately have "bitlen ?n = int (53 + j)" by simp
  then show ?thesis by (simp add: ulp_exp_def)
qed

lemma ulp_exp_small: "x < 2 ^ 53 * tiny \<Longrightarrow> ulp_exp x = 0"
proof -
  assume "x < 2 ^ 53 * tiny"
  with tiny_pos have "x / tiny < real_of_int (2 ^ 53)" by (simp add: field_simps)
  then have "\<lfloor>x / tiny\<rfloor> < 2 ^ 53" by (simp only: floor_less_iff)
  then have "bitlen \<lfloor>x / tiny\<rfloor> \<le> 53" by (simp add: bitlen_le_iff_power)
  then show ?thesis by (simp add: ulp_exp_def)
qed

lemma round_nearest_eqI:
  assumes "ulp_exp x = j" and "\<bar>x / (2 ^ j * tiny) - of_int k\<bar> < 1 / 2"
  shows "round_nearest x = of_int k * (2 ^ j * tiny)"
  using assms rhe_eqI [of "x / (2 ^ j * tiny)" k] by (simp add: round_nearest_def Let_def)

lemma round_nearest_mono: "x \<le> y \<Longrightarrow> round_nearest x \<le> round_nearest y"
proof -
  assume le: "x \<le> y"
  let ?i = "ulp_exp x" and ?j = "ulp_exp y"
  let ?u = "2 ^ ?i * tiny" and ?v = "2 ^ ?j * tiny"
  have up: "0 < ?u" and vp: "0 < ?v" using tiny_pos by simp_all
  from le have ij: "?i \<le> ?j" by (rule ulp_exp_mono)
  show ?thesis
  proof (cases "?i = ?j")
    case True
    from le up have "x / ?u \<le> y / ?u" by (simp add: divide_right_mono)
    then have "round_half_even (x / ?u) \<le> round_half_even (y / ?u)" by (rule rhe_mono)
    then have "real_of_int (round_half_even (x / ?u)) * ?u \<le> real_of_int (round_half_even (y / ?u)) * ?u"
      using up by (simp add: mult_right_mono)
    with True show ?thesis by (simp add: round_nearest_def Let_def)
  next
    case False
    with ij have lt: "?i < ?j" by simp
    then have jp: "0 < ?j" by simp
    \<comment> \<open>x rounds to at most the top of its binade\<close>
    have "x / ?u = (x / tiny) / 2 ^ ?i" by simp
    also have "\<dots> < 2 ^ (53 + ?i) / 2 ^ ?i"
      by (intro divide_strict_right_mono ulp_upper) simp
    also have "\<dots> = real_of_int (2 ^ 53)" by (simp add: power_add)
    finally have "x / ?u \<le> real_of_int (2 ^ 53)" by simp
    then have "round_half_even (x / ?u) \<le> round_half_even (real_of_int (2 ^ 53))" by (rule rhe_mono)
    then have "round_half_even (x / ?u) \<le> 2 ^ 53" by (simp only: rhe_int)
    then have "real_of_int (round_half_even (x / ?u)) \<le> real_of_int (2 ^ 53)" by (simp only: of_int_le_iff)
    then have "real_of_int (round_half_even (x / ?u)) * ?u \<le> real_of_int (2 ^ 53) * ?u"
      using up by (simp only: mult_right_mono less_imp_le)
    then have a: "round_nearest x \<le> 2 ^ (53 + ?i) * tiny"
      by (simp add: round_nearest_def Let_def power_add)
    \<comment> \<open>y rounds to at least the bottom of its binade\<close>
    have "real_of_int (2 ^ 52) = 2 ^ (52 + ?j) / 2 ^ ?j" by (simp add: power_add)
    also have "\<dots> \<le> (y / tiny) / 2 ^ ?j"
      by (intro divide_right_mono ulp_lower [OF jp]) simp
    also have "\<dots> = y / ?v" by simp
    finally have "round_half_even (real_of_int (2 ^ 52)) \<le> round_half_even (y / ?v)" by (rule rhe_mono)
    then have "2 ^ 52 \<le> round_half_even (y / ?v)" by (simp only: rhe_int)
    then have "real_of_int (2 ^ 52) \<le> real_of_int (round_half_even (y / ?v))" by (simp only: of_int_le_iff)
    then have "real_of_int (2 ^ 52) * ?v \<le> real_of_int (round_half_even (y / ?v)) * ?v"
      using vp by (simp only: mult_right_mono less_imp_le)
    then have b: "2 ^ (52 + ?j) * tiny \<le> round_nearest y"
      by (simp add: round_nearest_def Let_def power_add)
    from lt have "53 + ?i \<le> 52 + ?j" by simp
    then have "(2::real) ^ (53 + ?i) \<le> 2 ^ (52 + ?j)" by (intro power_increasing) simp_all
    then have "2 ^ (53 + ?i) * tiny \<le> 2 ^ (52 + ?j) * tiny"
      using tiny_pos by (simp only: mult_right_mono less_imp_le)
    with a b show ?thesis by linarith
  qed
qed

lemma round_nearest_fix:
  assumes "0 \<le> k" and "k < 2 ^ 53"
  shows "round_nearest (of_int k * (2 ^ j * tiny)) = of_int k * (2 ^ j * tiny)"
proof -
  define x where "x = of_int k * (2 ^ j * tiny)"
  define i where "i = ulp_exp x"
  have "x / tiny = real_of_int (k * 2 ^ j)" using tiny_pos by (simp add: x_def)
  then have n: "\<lfloor>x / tiny\<rfloor> = k * 2 ^ j" by (simp only: floor_of_int)
  from assms have "k * 2 ^ j < 2 ^ 53 * 2 ^ j" by simp
  then have "k * 2 ^ j < 2 ^ (53 + j)" by (simp add: power_add)
  then have "bitlen (k * 2 ^ j) \<le> int (53 + j)" by (simp add: bitlen_le_iff_power)
  with n have ij: "i \<le> j" by (simp add: ulp_exp_def i_def)
  then have e: "(2::real) ^ j = 2 ^ (j - i) * 2 ^ i" by (simp flip: power_add)
  have "x / (2 ^ i * tiny) = of_int k * (2 ^ (j - i) * 2 ^ i * tiny) / (2 ^ i * tiny)"
    by (simp only: x_def e)
  also have "\<dots> = real_of_int (k * 2 ^ (j - i))" using tiny_pos by simp
  finally have "round_half_even (x / (2 ^ i * tiny)) = k * 2 ^ (j - i)" by (simp only: rhe_int)
  then have "round_nearest x = real_of_int (k * 2 ^ (j - i)) * (2 ^ i * tiny)"
    by (simp add: round_nearest_def Let_def i_def)
  also have "\<dots> = of_int k * ((2 ^ (j - i) * 2 ^ i) * tiny)" by simp
  also have "\<dots> = x" by (simp only: x_def e)
  finally show ?thesis by (simp only: x_def)
qed


lemma round_nearest_at:
  assumes "2 ^ (52 + j) * tiny \<le> x" and "x < 2 ^ (53 + j) * tiny"
    and "\<bar>x / (2 ^ j * tiny) - of_int k\<bar> < 1 / 2"
  shows "round_nearest x = of_int k * (2 ^ j * tiny)"
  using ulp_exp_eqI [OF assms(1,2)] assms(3) by (rule round_nearest_eqI)

lemma round_nearest_one: "round_nearest 1 = 1"
  using round_nearest_fix [of "2 ^ 52" 1022] by (simp add: tiny_def)

lemma round_nearest_tiny: "round_nearest tiny = tiny"
  using round_nearest_fix [of 1 0] by simp

lemma round_nearest_max: "round_nearest (1 + max_double) = max_double"
proof -
  have "round_nearest (1 + max_double) = of_int (2 ^ 53 - 1) * (2 ^ 2045 * tiny)"
    by (rule round_nearest_at) (simp_all add: max_double_def tiny_def)
  then show ?thesis by (simp add: max_double_def)
qed

lemma max_double_bounds: "1 \<le> max_double" "max_double * tiny \<le> 1"
  by (simp_all add: max_double_def tiny_def)

lemma score_of_finite:
  assumes "0 \<le> x" and "x \<le> max_double"
  shows "score_of (Fin x) = Inr (Fin (round_nearest (1 / round_nearest (1 + x))))
       \<and> tiny \<le> round_nearest (1 / round_nearest (1 + x))
       \<and> round_nearest (1 / round_nearest (1 + x)) \<le> 1"
proof -
  let ?y = "round_nearest (1 + x)"
  let ?s = "round_nearest (1 / ?y)"
  from assms(1) have "round_nearest 1 \<le> ?y" by (intro round_nearest_mono) simp
  then have y1: "1 \<le> ?y" by (simp add: round_nearest_one)
  from assms(2) have "?y \<le> round_nearest (1 + max_double)" by (intro round_nearest_mono) simp
  then have ym: "?y \<le> max_double" by (simp add: round_nearest_max)
  from y1 have add: "float_add (Fin 1) (Fin x) = Fin ?y"
    using ym assms(1) by (simp add: to_double_def Let_def)
  from y1 have "1 / ?y \<le> 1" by simp
  then have "?s \<le> round_nearest 1" by (rule round_nearest_mono)
  then have s1: "?s \<le> 1" by (simp add: round_nearest_one)
  have "tiny \<le> 1 / ?y"
  proof -
    from ym tiny_pos have "?y * tiny \<le> max_double * tiny" by (simp add: mult_right_mono)
    with max_double_bounds(2) have "?y * tiny \<le> 1" by linarith
    with y1 show ?thesis by (simp add: field_simps)
  qed
  then have "round_nearest tiny \<le> ?s" by (rule round_nearest_mono)
  then have st: "tiny \<le> ?s" by (simp add: round_nearest_tiny)
  from y1 have "\<not> 1 / ?y < 0" by simp
  with y1 s1 st tiny_pos max_double_bounds(1) add
  have "score_of (Fin x) = Inr (Fin ?s)"
    by (simp add: score_of_def to_double_def Let_def)
  with st s1 show ?thesis by simp
qed

lemma score_value_mono:
  assumes "0 \<le> x1" and "x1 \<le> x2"
  shows "round_nearest (1 / round_nearest (1 + x2)) \<le> round_nearest (1 / round_nearest (1 + x1))"
proof -
  from assms(1) have "round_nearest 1 \<le> round_nearest (1 + x1)" by (intro round_nearest_mono) simp
  then have y1: "1 \<le> round_nearest (1 + x1)" by (simp add: round_nearest_one)
  from assms(2) have "round_nearest (1 + x1) \<le> round_nearest (1 + x2)"
    by (intro round_nearest_mono) simp
  with y1 have "1 / round_nearest (1 + x2) \<le> 1 / round_nearest (1 + x1)"
    by (simp add: frac_le)
  then show ?thesis by (rule round_nearest_mono)
qed

lemma score_zero: "score_of (Fin 0) = Inr (Fin 1)"
  using score_of_finite [of 0] max_double_bounds(1) by (simp add: round_nearest_one)

lemma round_nearest_close_to_one: "round_nearest (1 + 1 / 2 ^ 60) = 1"
proof -
  have "round_nearest (1 + 1 / 2 ^ 60) = of_int (2 ^ 52) * (2 ^ 1022 * tiny)"
    by (rule round_nearest_at) (simp_all add: tiny_def)
  then show ?thesis by (simp add: tiny_def)
qed

lemma score_close: "score_of close_to_zero = Inr (Fin 1)"
proof -
  have "(1::real) / 2 ^ 60 \<le> max_double" using max_double_bounds(1) by simp
  from score_of_finite [OF _ this]
  have "score_of close_to_zero
          = Inr (Fin (round_nearest (1 / round_nearest (1 + 1 / 2 ^ 60))))"
    by (simp add: close_to_zero_def)
  then show ?thesis
    by (simp only: round_nearest_close_to_one div_by_1 round_nearest_one)
qed

lemma score_inf: "score_of PInf = Inr (Fin 0)"
  by (simp add: score_of_def)

lemma double_tenth: "tenth = Fin (3602879701896397 / 36028797018963968)"
proof -
  have "round_nearest (1 / 10) = of_int 7205759403792794 * (2 ^ 1018 * tiny)"
    by (rule round_nearest_at) (simp_all add: tiny_def)
  then have "round_nearest (1 / 10) = 3602879701896397 / 36028797018963968"
    by (simp add: tiny_def)
  moreover have "(1::real) \<le> max_double" by (rule max_double_bounds)
  ultimately show ?thesis by (simp add: tenth_def to_double_def Let_def)
qed

lemma double_half: "half = Fin (1 / 2)"
proof -
  have "round_nearest (1 / 2) = 1 / 2"
    using round_nearest_fix [of 1 1073] by (simp add: tiny_def)
  moreover have "(1::real) \<le> max_double" by (rule max_double_bounds)
  ultimately show ?thesis by (simp add: half_def to_double_def Let_def)
qed

lemma score_tenth:
  "score_of tenth = Inr (Fin (8188362958855447 / 9007199254740992))"
proof -
  have a: "round_nearest (1 + 3602879701896397 / 36028797018963968) = 2476979795053773 / 2251799813685248"
  proof -
    have "round_nearest (1 + 3602879701896397 / 36028797018963968)
            = of_int 4953959590107546 * (2 ^ 1022 * tiny)"
      by (rule round_nearest_at) (simp_all add: tiny_def)
    then show ?thesis by (simp add: tiny_def)
  qed
  have b: "round_nearest (1 / (2476979795053773 / 2251799813685248)) = 8188362958855447 / 9007199254740992"
  proof -
    have "round_nearest (1 / (2476979795053773 / 2251799813685248))
            = of_int 8188362958855447 * (2 ^ 1021 * tiny)"
      by (rule round_nearest_at) (simp_all add: tiny_def)
    then show ?thesis by (simp add: tiny_def)
  qed
  have "(3602879701896397 / 36028797018963968 :: real) \<le> max_double"
    using max_double_bounds(1) by simp
  from score_of_finite [OF _ this] show ?thesis by (simp only: a b double_tenth)
qed

lemma score_half: "score_of half = Inr (Fin (6004799503160661 / 9007199254740992))"
proof -
  have a: "round_nearest (1 + 1 / 2) = 3 / 2"
    using round_nearest_fix [of 3 1073] by (simp add: tiny_def)
  have b: "round_nearest (1 / (3 / 2)) = 6004799503160661 / 9007199254740992"
  proof -
    have "round_nearest (1 / (3 / 2)) = of_int 6004799503160661 * (2 ^ 1021 * tiny)"
      by (rule round_nearest_at) (simp_all add: tiny_def)
    then show ?thesis by (simp add: tiny_def)
  qed
  have "(1 / 2 :: real) \<le> max_double" using max_double_bounds(1) by simp
  from score_of_finite [OF _ this] show ?thesis by (simp only: a b double_half)
qed

section \<open>Similarity search: scores and order\<close>

lemma bind_err_Inr_iff: "bind_err m f = Inr y \<longleftrightarrow> (\<exists>x. m = Inr x \<and> f x = Inr y)"
  by (cases m) (simp_all add: bind_err_def)

lemma bind_err_Inl [simp]: "bind_err (Inl e) f = Inl e"
  by (simp add: bind_err_def)

lemma bind_err_Inr [simp]: "bind_err (Inr x) f = f x"
  by (simp add: bind_err_def)

lemma search_loop_scores:
  "search_loop results i ids = Inr rs \<Longrightarrow>
     length rs = length ids \<and> (\<forall>r \<in> set rs. score_of (distance r) = Inr (score r))"
proof (induction ids arbitrary: i rs)
  case Nil
  then show ?case by simp
next
  case (Cons doc_id ids)
  from Cons.prems obtain d sc c rest where
    sc: "score_of d = Inr sc"
    and rest: "search_loop results (Suc i) ids = Inr rest"
    and rs: "rs = \<lparr>sr_chunk = c, score = sc, distance = d\<rparr> # rest"
    by (auto simp: bind_err_Inr_iff)
  with Cons.IH [OF rest] show ?case by simp
qed

lemma search_loop_distances:
  "search_loop results i ids = Inr rs \<Longrightarrow> ids \<noteq> [] \<Longrightarrow>
     map distance rs = take (length ids) (drop i (hd (q_distances results)))"
proof (induction ids arbitrary: i rs)
  case Nil
  then show ?case by simp
next
  case (Cons doc_id ids)
  from Cons.prems obtain ds d c sc rest where
    ds: "py_index (q_distances results) 0 = Inr ds" and d: "py_index ds i = Inr d"
    and rest: "search_loop results (Suc i) ids = Inr rest"
    and rs: "rs = \<lparr>sr_chunk = c, score = sc, distance = d\<rparr> # rest"
    by (auto simp: bind_err_Inr_iff)
  from ds have hd: "hd (q_distances results) = ds"
    by (cases "q_distances results") (auto simp: py_index_def split: if_splits)
  from d have i: "i < length ds" and dist: "d = ds ! i"
    by (auto simp: py_index_def split: if_splits)
  show ?case
  proof (cases ids)
    case Nil
    with rest have "rest = []" by simp
    with rs i dist hd Nil show ?thesis
      by (simp add: take_Suc_conv_app_nth hd_drop_conv_nth take_Suc)
  next
    case (Cons a list)
    then have "ids \<noteq> []" by simp
    from Cons.IH [OF rest this] have "map distance rest = take (length ids) (drop (Suc i) ds)"
      using hd by simp
    with rs i dist hd show ?thesis
      by (simp add: Cons_nth_drop_Suc [symmetric])
  qed
qed

lemma score_of_range:
  assumes "float_le (Fin 0) d" and "is_finite_double d" and "score_of d = Inr s"
  shows "float_less (Fin 0) s \<and> float_le s (Fin 1)"
proof -
  from assms(1,2) obtain x where d: "d = Fin x" and x: "0 \<le> x" "x \<le> max_double"
    by (cases d) auto
  from score_of_finite [OF x] assms(3) tiny_pos show ?thesis
    by (auto simp: d)
qed

lemma score_of_antimono:
  assumes "float_le (Fin 0) d1" and "float_le d1 d2" and "is_finite_double d2"
    and "score_of d1 = Inr s1" and "score_of d2 = Inr s2"
  shows "float_le s2 s1"
proof -
  from assms(3) obtain x2 where d2: "d2 = Fin x2" and m2: "x2 \<le> max_double"
    by (cases d2) auto
  from assms(1,2) d2 obtain x1 where d1: "d1 = Fin x1" and x1: "0 \<le> x1" "x1 \<le> x2"
    by (cases d1) auto
  from x1 m2 have m1: "x1 \<le> max_double" and p2: "0 \<le> x2" by simp_all
  from score_of_finite [OF x1(1) m1] score_of_finite [OF p2 m2] assms(4,5)
    score_value_mono [OF x1]
  show ?thesis by (auto simp: d1 d2)
qed

text \<open>
  Claim C3 as stated fails in float arithmetic. The distances 0, \<open>2 ** -60\<close> and
  infinity are all nonnegative. The first two differ, yet \<open>1 + 2 ** -60\<close> rounds to 1
  and both scores are 1.0: the score is not strictly decreasing. The score of the
  infinite distance is 0.0, outside \<open>(0, 1]\<close>.
\<close>

theorem search_scores_counterexample:
  "search three_hits_ext [] [0] 10 None =
     Inr [\<lparr>sr_chunk = example_chunk\<lparr>content := ''first''\<rparr>, score = Fin 1, distance = Fin 0\<rparr>,
          \<lparr>sr_chunk = example_chunk\<lparr>content := ''second''\<rparr>, score = Fin 1,
             distance = close_to_zero\<rparr>,
          \<lparr>sr_chunk = example_chunk\<lparr>content := ''third''\<rparr>, score = Fin 0, distance = PInf\<rparr>]
   \<and> float_le (Fin 0) (Fin 0) \<and> float_le (Fin 0) close_to_zero \<and> float_le (Fin 0) PInf
   \<and> float_less (Fin 0) close_to_zero
   \<and> \<not> float_less (Fin 1) (Fin 1)
   \<and> \<not> float_less (Fin 0) (Fin 0)"
proof -
  have ev: "search three_hits_ext [] [0] 10 None =
     Inr [\<lparr>sr_chunk = example_chunk\<lparr>content := ''first''\<rparr>, score = Fin 1, distance = Fin 0\<rparr>,
          \<lparr>sr_chunk = example_chunk\<lparr>content := ''second''\<rparr>, score = Fin 1,
             distance = close_to_zero\<rparr>,
          \<lparr>sr_chunk = example_chunk\<lparr>content := ''third''\<rparr>, score = Fin 0, distance = PInf\<rparr>]"
    by (simp add: search_def three_hits_ext_def para_ext_def three_hits_def query_where_def
        py_index_def metadata_to_chunk_def chunk_to_metadata_def example_chunk_def
        md_str_def md_int_def md_real_def md_get_def py_split_def Let_def
        score_zero score_close score_inf)
  have c: "float_le (Fin 0) close_to_zero" "float_less (Fin 0) close_to_zero"
    by (simp_all add: close_to_zero_def)
  from ev c show ?thesis by simp
qed

text \<open>
  Claim C3, as amended. Every result of the similarity search has the score
  \<open>1 / (1 + distance)\<close> computed in float arithmetic. For a result whose distance is
  nonnegative and finite the score lies in \<open>(0, 1]\<close>, and of two such results the one
  with the larger distance has a score that is smaller or equal: the score never
  increases with the distance, and distances that differ may share a score. The
  results keep the order of the store's answer, so hits at distances 0.1 and 0.5 come
  back in this order, with the doubles nearest to \<open>1/1.1\<close> and \<open>1/1.5\<close> as scores.
\<close>

theorem search_scores:
  "(search ext coll q n f = Inr rs \<longrightarrow>
      (\<forall>r \<in> set rs. score_of (distance r) = Inr (score r)) \<and>
      (\<forall>r \<in> set rs. float_le (Fin 0) (distance r) \<and> is_finite_double (distance r)
           \<longrightarrow> float_less (Fin 0) (score r) \<and> float_le (score r) (Fin 1)) \<and>
      (\<forall>r1 \<in> set rs. \<forall>r2 \<in> set rs.
           float_le (Fin 0) (distance r1) \<and> float_le (distance r1) (distance r2)
           \<and> is_finite_double (distance r2)
           \<longrightarrow> float_le (score r2) (score r1)))
   \<and> (search ext coll q n f = Inr rs \<and> rs \<noteq> []
        \<and> coll_query ext coll [q] n (query_where f) = Inr results
      \<longrightarrow> map distance rs = take (length rs) (hd (q_distances results)))"
proof (intro conjI impI)
  assume s: "search ext coll q n f = Inr rs"
  then obtain res where
    r: "(if q_ids res \<noteq> [] \<and> hd (q_ids res) \<noteq> []
         then search_loop res 0 (hd (q_ids res)) else Inr []) = Inr rs"
    by (auto simp: search_def bind_err_Inr_iff)
  show f1: "\<forall>r \<in> set rs. score_of (distance r) = Inr (score r)"
    using r search_loop_scores [of res 0 "hd (q_ids res)" rs] by (auto split: if_splits)
  show "\<forall>r \<in> set rs. float_le (Fin 0) (distance r) \<and> is_finite_double (distance r)
           \<longrightarrow> float_less (Fin 0) (score r) \<and> float_le (score r) (Fin 1)"
    using f1 score_of_range by blast
  show "\<forall>r1 \<in> set rs. \<forall>r2 \<in> set rs.
           float_le (Fin 0) (distance r1) \<and> float_le (distance r1) (distance r2)
           \<and> is_finite_double (distance r2)
           \<longrightarrow> float_le (score r2) (score r1)"
    using f1 score_of_antimono by blast
next
  assume a: "search ext coll q n f = Inr rs \<and> rs \<noteq> []
        \<and> coll_query ext coll [q] n (query_where f) = Inr results"
  then have r: "(if q_ids results \<noteq> [] \<and> hd (q_ids results) \<noteq> []
                 then search_loop results 0 (hd (q_ids results)) else Inr []) = Inr rs"
    by (auto simp: search_def)
  with a have ne: "hd (q_ids results) \<noteq> []"
    and l: "search_loop results 0 (hd (q_ids results)) = Inr rs"
    by (auto split: if_splits)
  from search_loop_scores [OF l] have "length rs = length (hd (q_ids results))" by simp
  with search_loop_distances [OF l ne]
  show "map distance rs = take (length rs) (hd (q_distances results))"
    by simp
qed

theorem search_scores_witness:
  "search two_hits_ext [] [0] 10 None =
     Inr [\<lparr>sr_chunk = example_chunk\<lparr>content := ''first''\<rparr>,
            score = Fin (8188362958855447 / 9007199254740992), distance = tenth\<rparr>,
          \<lparr>sr_chunk = example_chunk\<lparr>content := ''second''\<rparr>,
            score = Fin (6004799503160661 / 9007199254740992), distance = half\<rparr>]
   \<and> tenth = Fin (3602879701896397 / 36028797018963968) \<and> half = Fin (1 / 2)
   \<and> float_le (Fin 0) tenth \<and> is_finite_double tenth
   \<and> float_le tenth half \<and> is_finite_double half
   \<and> float_less (Fin (6004799503160661 / 9007199254740992))
                 (Fin (8188362958855447 / 9007199254740992))
   \<and> float_less (Fin 0) (Fin (6004799503160661 / 9007199254740992))
   \<and> float_le (Fin (8188362958855447 / 9007199254740992)) (Fin 1)
   \<and> \<bar>8188362958855447 / 9007199254740992 - 10 / 11\<bar> < (1 / 10 ^ 16 :: real)
   \<and> \<bar>6004799503160661 / 9007199254740992 - 2 / 3\<bar> < (1 / 10 ^ 16 :: real)
   \<and> hd (q_distances two_hits) = [tenth, half]"
proof -
  let ?rs = "[\<lparr>sr_chunk = example_chunk\<lparr>content := ''first''\<rparr>,
            score = Fin (8188362958855447 / 9007199254740992), distance = tenth\<rparr>,
          \<lparr>sr_chunk = example_chunk\<lparr>content := ''second''\<rparr>,
            score = Fin (6004799503160661 / 9007199254740992), distance = half\<rparr>]"
  have ev: "search two_hits_ext [] [0] 10 None = Inr ?rs"
    by (simp add: search_def two_hits_ext_def para_ext_def two_hits_def query_where_def
        py_index_def metadata_to_chunk_def chunk_to_metadata_def example_chunk_def
        md_str_def md_int_def md_real_def md_get_def py_split_def Let_def
        score_tenth score_half)
  have q: "coll_query two_hits_ext [] [[0]] 10 (query_where None) = Inr two_hits"
    by (simp add: two_hits_ext_def para_ext_def)
  have m: "(1::real) \<le> max_double" by (rule max_double_bounds)
  have v: "float_le (Fin 0) tenth" "is_finite_double tenth" "float_le tenth half"
    "is_finite_double half"
    using m by (simp_all add: double_tenth double_half)
  from ev q v search_scores [of two_hits_ext "[]" "[0]" 10 None ?rs two_hits]
  show ?thesis by (simp add: two_hits_def double_tenth double_half)
qed

section \<open>Zero results and errors\<close>

text \<open>
  Claim C8. Zero results is not an error: when the store's query reports no matching
  ids, \<open>search\<close> returns the empty list, and so does \<open>search_vault\<close> once the query
  is embedded. A failure of the store's query or of the embedding step is returned as
  an error, which is never the empty list.
\<close>

theorem zero_results_not_error:
  "(coll_query ext coll [q] n (query_where f) = Inr results
      \<and> (q_ids results = [] \<or> hd (q_ids results) = [])
      \<longrightarrow> search ext coll q n f = Inr [])
   \<and> (coll_query ext coll [q] n (query_where f) = Inl e \<longrightarrow> search ext coll q n f = Inl e)
   \<and> (model_encode ext query = Inl e \<longrightarrow> search_vault ext coll query n f = Inl e)
   \<and> (model_encode ext query = Inr q
      \<longrightarrow> search_vault ext coll query n f = search ext coll q n f)
   \<and> (Inl e :: error + search_result list) \<noteq> Inr []"
  by (auto simp: search_def search_vault_def)

theorem zero_results_not_error_witness:
  "search_vault para_ext [] [] 10 None = Inr []
   \<and> search_vault failing_store_ext [] [] 10 None = Inl StoreError
   \<and> search_vault failing_embed_ext [] [] 10 None = Inl EmbeddingError"
proof -
  have a: "coll_query para_ext [] [[0]] 10 (query_where None) = Inr no_results"
    "q_ids no_results = [] \<or> hd (q_ids no_results) = []"
    "model_encode para_ext [] = Inr [0]"
    by (simp_all add: para_ext_def no_results_def)
  have b: "coll_query failing_store_ext [] [[0]] 10 (query_where None) = Inl StoreError"
    "model_encode failing_store_ext [] = Inr [0]"
    by (simp_all add: failing_store_ext_def para_ext_def)
  have c: "model_encode failing_embed_ext [] = Inl EmbeddingError"
    by (simp add: failing_embed_ext_def para_ext_def)
  from a zero_results_not_error [of para_ext "[]" "[0]" 10 None no_results StoreError "[]"]
  have 1: "search_vault para_ext [] [] 10 None = Inr []" by simp
  from b zero_results_not_error [of failing_store_ext "[]" "[0]" 10 None no_results StoreError "[]"]
  have 2: "search_vault failing_store_ext [] [] 10 None = Inl StoreError" by simp
  from c zero_results_not_error [of failing_embed_ext "[]" "[0]" 10 None no_results EmbeddingError "[]"]
  have 3: "search_vault failing_embed_ext [] [] 10 None = Inl EmbeddingError" by simp
  from 1 2 3 show ?thesis by simp
qed

section \<open>Metadata round trip\<close>


lemma split_aux_clean:
  "(\<And>t. suffix t h \<Longrightarrow> t \<noteq> [] \<Longrightarrow> \<not> prefix sep (t @ rest)) \<Longrightarrow>
     split_aux sep acc (h @ rest) = split_aux sep (rev h @ acc) rest"
proof (induction h arbitrary: acc)
  case Nil
  show ?case by simp
next
  case (Cons c h)
  have "\<not> prefix sep ((c # h) @ rest)"
    using Cons.prems [of "c # h"] by simp
  then have "split_aux sep acc ((c # h) @ rest) = split_aux sep (c # acc) (h @ rest)"
    by simp
  also have "\<dots> = split_aux sep (rev h @ c # acc) rest"
  proof (rule Cons.IH)
    fix t assume "suffix t h" "t \<noteq> []"
    then show "\<not> prefix sep (t @ rest)"
      using Cons.prems [of t] by (simp add: suffix_Cons)
  qed
  finally show ?case by simp
qed

lemma split_aux_at_sep:
  "sep \<noteq> [] \<Longrightarrow> split_aux sep acc (sep @ rst) = rev acc # split_aux sep [] rst"
  by (cases sep) simp_all

lemma delimiter_not_started:
  assumes "\<not> sublist '' > '' h" and "\<not> suffix '' >'' h" and "suffix t h" and "t \<noteq> []"
  shows "\<not> prefix '' > '' (t @ '' > '' @ rst)"
proof
  assume p: "prefix '' > '' (t @ '' > '' @ rst)"
  from assms(3) obtain u where h: "h = u @ t" by (auto simp: suffix_def)
  consider (one) a where "t = [a]" | (two) a b where "t = [a, b]"
    | (longer) a b c w where "t = a # b # c # w"
    using assms(4) by (cases t rule: list.exhaust; cases "tl t"; cases "tl (tl t)") auto
  then show False
  proof cases
    case one
    with p show False by simp
  next
    case two
    with p have "t = '' >''" by simp
    with h assms(2) show False by (simp add: suffix_def)
  next
    case longer
    with p have "t = '' > '' @ w" by auto
    with h have "h = u @ '' > '' @ w" by simp
    with assms(1) show False unfolding sublist_def by blast
  qed
qed

lemma delimiter_not_inside:
  assumes "\<not> sublist '' > '' h" and "suffix t h"
  shows "\<not> prefix '' > '' (t @ [])"
proof
  assume "prefix '' > '' (t @ [])"
  then obtain w where "t = '' > '' @ w" by (auto simp: prefix_def)
  moreover from assms(2) obtain u where "h = u @ t" by (auto simp: suffix_def)
  ultimately have "h = u @ '' > '' @ w" by simp
  with assms(1) show False unfolding sublist_def by blast
qed

lemma split_join_headers:
  "hs \<noteq> [] \<Longrightarrow> (\<forall>h \<in> set hs. \<not> sublist '' > '' h \<and> \<not> suffix '' >'' h) \<Longrightarrow>
     split_aux '' > '' [] (py_join '' > '' hs) = hs"
proof (induction "'' > ''" hs rule: py_join.induct)
  case 1
  then show ?case by simp
next
  case (2 x)
  have "split_aux '' > '' [] (x @ []) = split_aux '' > '' (rev x @ []) []"
    by (rule split_aux_clean) (use 2 delimiter_not_inside in auto)
  then show ?case by simp
next
  case (3 x y ys)
  let ?J = "py_join '' > '' (y # ys)"
  have "split_aux '' > '' [] (x @ '' > '' @ ?J) = split_aux '' > '' (rev x @ []) ('' > '' @ ?J)"
    by (rule split_aux_clean) (use 3 delimiter_not_started in auto)
  also have "\<dots> = x # split_aux '' > '' [] ?J"
    using split_aux_at_sep [of "'' > ''" "rev x" ?J] by simp
  also have "split_aux '' > '' [] ?J = y # ys"
    using 3 by simp
  finally show ?case by simp
qed

lemma join_nonempty:
  "hs \<noteq> [] \<Longrightarrow> (\<forall>h \<in> set hs. h \<noteq> []) \<Longrightarrow> py_join sep hs \<noteq> []"
  by (induction sep hs rule: py_join.induct) auto

text \<open>
  Claim C9 as stated fails: the headers \<open># a >\<close> and \<open>## b\<close> are non-empty and
  neither contains the delimiter \<open>" > "\<close>, yet the joined string
  \<open># a > > ## b\<close> is split at the first occurrence of the delimiter, which starts
  inside the first header, and the chunk comes back with the headers \<open># a\<close> and
  \<open>> ## b\<close>.
\<close>

theorem metadata_round_trip_counterexample:
  "headers arrow_chunk = [''# a >'', ''## b'']
   \<and> ''# a >'' \<noteq> [] \<and> ''## b'' \<noteq> []
   \<and> \<not> sublist '' > '' ''# a >'' \<and> \<not> sublist '' > '' ''## b''
   \<and> metadata_to_chunk (chunk_to_metadata id arrow_chunk) (content arrow_chunk)
       = Inr (arrow_chunk\<lparr>headers := [''# a'', ''> ## b'']\<rparr>)
   \<and> metadata_to_chunk (chunk_to_metadata id arrow_chunk) (content arrow_chunk)
       \<noteq> Inr arrow_chunk"
proof -
  have s1: "\<not> sublist '' > '' ''# a >''" by code_simp
  have s2: "\<not> sublist '' > '' ''## b''" by code_simp
  have r: "metadata_to_chunk (chunk_to_metadata id arrow_chunk) (content arrow_chunk)
       = Inr (arrow_chunk\<lparr>headers := [''# a'', ''> ## b'']\<rparr>)"
    by (simp add: metadata_to_chunk_def chunk_to_metadata_def md_str_def md_int_def
        md_real_def md_get_def Let_def py_split_def arrow_chunk_def example_chunk_def)
  have n: "arrow_chunk\<lparr>headers := [''# a'', ''> ## b'']\<rparr> \<noteq> arrow_chunk"
    by (simp add: arrow_chunk_def example_chunk_def)
  from s1 s2 r n show ?thesis by (simp add: arrow_chunk_def)
qed

text \<open>
  Claim C9, as amended. The encoding of the header list as one string joined by
  \<open>" > "\<close> and its decoding by \<open>split\<close> are a round trip for every chunk whose
  headers are non-empty strings none of which contains the delimiter or ends with a
  space followed by \<open>>\<close>: rebuilding the chunk from its metadata and its content
  gives the chunk back, in every field and with the headers in order.
\<close>

theorem metadata_round_trip:
  assumes "\<forall>h \<in> set (headers c). h \<noteq> [] \<and> \<not> sublist '' > '' h \<and> \<not> suffix '' >'' h"
  shows "metadata_to_chunk (chunk_to_metadata name_of c) (content c) = Inr c"
proof (cases "headers c = []")
  case True
  then show ?thesis
    by (simp add: metadata_to_chunk_def chunk_to_metadata_def md_str_def md_int_def
        md_real_def md_get_def Let_def)
next
  case False
  with assms have j: "py_join '' > '' (headers c) \<noteq> []"
    by (intro join_nonempty) auto
  from False assms have "split_aux '' > '' [] (py_join '' > '' (headers c)) = headers c"
    by (intro split_join_headers) auto
  with False j show ?thesis
    by (simp add: metadata_to_chunk_def chunk_to_metadata_def md_str_def md_int_def
        md_real_def md_get_def Let_def py_split_def)
qed


theorem metadata_round_trip_witness:
  "list_all (\<lambda>h. h \<noteq> [] \<and> \<not> sublist '' > '' h \<and> \<not> suffix '' >'' h)
     [''# Main'', ''## Section'']
   \<and> metadata_to_chunk
        (chunk_to_metadata id (example_chunk\<lparr>headers := [''# Main'', ''## Section'']\<rparr>))
        ''Test content''
       = Inr (example_chunk\<lparr>headers := [''# Main'', ''## Section'']\<rparr>)"
proof -
  let ?c = "example_chunk\<lparr>headers := [''# Main'', ''## Section'']\<rparr>"
  have s: "\<not> sublist '' > '' ''# Main''" "\<not> sublist '' > '' ''## Section''"
    "\<not> suffix '' >'' ''# Main''" "\<not> suffix '' >'' ''## Section''"
    by code_simp+
  then have h: "\<forall>h \<in> set (headers ?c). h \<noteq> [] \<and> \<not> sublist '' > '' h \<and> \<not> suffix '' >'' h"
    by simp
  have c: "content ?c = ''Test content''" by (simp add: example_chunk_def)
  from s c metadata_round_trip [OF h, of id] show ?thesis by simp
qed

section \<open>Full reconcile: what is indexed and what is deleted\<close>


lemma plan_loop_filter:
  "plan_loop force idx docs ti td =
     (ti @ filter (\<lambda>d. force \<or> doc_modified d >
                         (case map_of idx (doc_path d) of Some m \<Rightarrow> m | None \<Rightarrow> 0)) docs,
      filter (\<lambda>p. p \<notin> doc_path ` set docs) td)"
proof (induction docs arbitrary: ti td)
  case Nil
  show ?case by simp
next
  case (Cons d docs)
  let ?newer = "force \<or> doc_modified d >
                  (case map_of idx (doc_path d) of Some m \<Rightarrow> m | None \<Rightarrow> 0)"
  let ?td = "filter (\<lambda>p. p \<noteq> doc_path d) td"
  have r: "(if doc_path d \<in> set td then removeAll (doc_path d) td else td) = ?td"
    by (induction td) auto
  have f: "filter (\<lambda>p. p \<notin> doc_path ` set docs) ?td
             = filter (\<lambda>p. p \<notin> doc_path ` set (d # docs)) td"
    by (induction td) auto
  have step: "plan_loop force idx (d # docs) ti td =
      (if ?newer then plan_loop force idx docs (ti @ [d]) ?td
       else plan_loop force idx docs ti ?td)"
    by (simp only: plan_loop.simps Let_def r)
  show ?case
  proof (cases ?newer)
    case True
    then show ?thesis unfolding step Cons.IH f by simp
  next
    case False
    then show ?thesis unfolding step Cons.IH f by simp
  qed
qed

lemma filter_by_ids:
  assumes "distinct (map fst coll)"
  shows "filter (\<lambda>(i, r). i \<notin> set (map fst (filter Q coll))) coll = filter (\<lambda>x. \<not> Q x) coll"
proof (rule filter_cong [OF refl])
  fix x assume x: "x \<in> set coll"
  obtain i r where ir: "x = (i, r)" by (cases x)
  have "i \<in> set (map fst (filter Q coll)) \<longleftrightarrow> Q (i, r)"
  proof
    assume "i \<in> set (map fst (filter Q coll))"
    then obtain r' where r': "(i, r') \<in> set coll" "Q (i, r')" by auto
    from eq_key_imp_eq_value [OF assms r'(1)] x ir have "r' = r" by simp
    with r' show "Q (i, r)" by simp
  next
    assume "Q (i, r)"
    with x ir show "i \<in> set (map fst (filter Q coll))" by force
  qed
  then show "(case x of (i, r) \<Rightarrow> i \<notin> set (map fst (filter Q coll))) = (\<not> Q x)"
    by (simp add: ir)
qed

lemma delete_by_source_filter:
  assumes "distinct (map fst coll)"
  shows "fst (delete_by_source coll src) =
           filter (\<lambda>(i, r). map_of (st_metadata r) ''source_path'' \<noteq> Some (MStr src)) coll"
proof -
  let ?Q = "\<lambda>(i, r). map_of (st_metadata r) ''source_path'' = Some (MStr src)"
  have e: "filter (\<lambda>x. \<not> ?Q x) coll = filter (\<lambda>(i, r). map_of (st_metadata r) ''source_path'' \<noteq> Some (MStr src)) coll"
    by (rule filter_cong) auto
  show ?thesis
  proof (cases "filter ?Q coll = []")
    case True
    then have "filter (\<lambda>x. \<not> ?Q x) coll = coll"
      by (simp add: filter_empty_conv filter_id_conv)
    with True e show ?thesis
      by (simp add: delete_by_source_def coll_get_where_def Let_def)
  next
    case False
    with filter_by_ids [OF assms, of ?Q] e show ?thesis
      by (simp add: delete_by_source_def coll_get_where_def coll_delete_def Let_def)
  qed
qed

lemma delete_by_source_distinct:
  "distinct (map fst coll) \<Longrightarrow> distinct (map fst (fst (delete_by_source coll src)))"
  by (simp add: delete_by_source_filter distinct_map_filter)

lemma delete_loop_filter:
  "distinct (map fst coll) \<Longrightarrow>
     fst (delete_loop coll ps n) =
       filter (\<lambda>(i, r). \<forall>p \<in> set ps. map_of (st_metadata r) ''source_path'' \<noteq> Some (MStr p)) coll"
proof (induction ps arbitrary: coll n)
  case Nil
  then show ?case by simp
next
  case (Cons p ps)
  obtain c1 k where d: "delete_by_source coll p = (c1, k)" by (cases "delete_by_source coll p")
  with delete_by_source_filter [OF Cons.prems, of p] delete_by_source_distinct [OF Cons.prems, of p]
  have c1: "c1 = filter (\<lambda>(i, r). map_of (st_metadata r) ''source_path'' \<noteq> Some (MStr p)) coll"
    and dc: "distinct (map fst c1)" by simp_all
  from Cons.IH [OF dc] d show ?case
    by (simp add: c1) (auto intro: filter_cong)
qed

text \<open>
  Where the reconcile agrees with its description: for a fresh scan whose documents
  all have a positive modification time, \<open>to_index\<close> is exactly the scanned
  documents, in scan order, that are newer than the recorded time of their path, or
  were not indexed before, or all of them under \<open>force\<close>. Without \<open>force\<close>,
  \<open>to_delete\<close> is exactly the set of indexed paths absent from the scan. The
  deletion loop over \<open>to_delete\<close> removes the records of exactly these sources
  from a store with one record per id.
\<close>

lemma index_plan_where_sound:
  assumes "index_plan coll docs force = Inr (to_index, to_delete)"
    and "get_indexed_files coll = Inr indexed"
    and "\<forall>d \<in> set docs. 0 < doc_modified d"
    and "distinct (map fst coll)"
  shows "to_index = filter (\<lambda>d. force \<or> (case map_of indexed (doc_path d) of
                                          None \<Rightarrow> True | Some m \<Rightarrow> m < doc_modified d)) docs
     \<and> (\<not> force \<longrightarrow> set to_delete = fst ` set indexed - doc_path ` set docs)
     \<and> fst (delete_loop coll to_delete 0) =
           filter (\<lambda>(i, r). \<forall>p \<in> set to_delete.
                      map_of (st_metadata r) ''source_path'' \<noteq> Some (MStr p)) coll"
proof (intro conjI)
  let ?idx = "if force then [] else indexed"
  from assms(1,2) have p: "plan_loop force ?idx docs [] (map fst ?idx) = (to_index, to_delete)"
    by (auto simp: index_plan_def split: if_splits)
  have c: "(force \<or> doc_modified d > (case map_of ?idx (doc_path d) of Some m \<Rightarrow> m | None \<Rightarrow> 0))
         = (force \<or> (case map_of indexed (doc_path d) of None \<Rightarrow> True | Some m \<Rightarrow> m < doc_modified d))"
    if "d \<in> set docs" for d
    using that assms(3) by (auto split: option.splits)
  from p have "to_index = filter (\<lambda>d. force \<or> doc_modified d >
                  (case map_of ?idx (doc_path d) of Some m \<Rightarrow> m | None \<Rightarrow> 0)) docs"
    by (simp add: plan_loop_filter)
  also have "\<dots> = filter (\<lambda>d. force \<or> (case map_of indexed (doc_path d) of
                                          None \<Rightarrow> True | Some m \<Rightarrow> m < doc_modified d)) docs"
    by (rule filter_cong [OF refl]) (use c in blast)
  finally show "to_index = filter (\<lambda>d. force \<or> (case map_of indexed (doc_path d) of
                                          None \<Rightarrow> True | Some m \<Rightarrow> m < doc_modified d)) docs" .
  show "\<not> force \<longrightarrow> set to_delete = fst ` set indexed - doc_path ` set docs"
  proof
    assume "\<not> force"
    with p have "to_delete = filter (\<lambda>p. p \<notin> doc_path ` set docs) (map fst indexed)"
      by (simp add: plan_loop_filter)
    then have "set to_delete = set (map fst indexed) - doc_path ` set docs"
      by auto
    then show "set to_delete = fst ` set indexed - doc_path ` set docs"
      by simp
  qed
  show "fst (delete_loop coll to_delete 0) =
           filter (\<lambda>(i, r). \<forall>p \<in> set to_delete.
                      map_of (st_metadata r) ''source_path'' \<noteq> Some (MStr p)) coll"
    by (rule delete_loop_filter [OF assms(4)])
qed

lemma index_plan_where_sound_example:
  "index_plan store_ab scan_abc False = Inr ([scanned ''B'' 200, scanned ''C'' 50], [])
   \<and> get_indexed_files store_ab = Inr [(''A'', 100), (''B'', 100)]
   \<and> list_all (\<lambda>d. 0 < doc_modified d) scan_abc
   \<and> distinct (map fst store_ab)
   \<and> [scanned ''B'' 200, scanned ''C'' 50] =
       filter (\<lambda>d. case map_of [(''A'', 100), (''B'', 100 :: real)] (doc_path d) of
                    None \<Rightarrow> True | Some m \<Rightarrow> m < doc_modified d) scan_abc
   \<and> fst (delete_loop store_ab [] 0) = store_ab"
proof -
  have p: "index_plan store_ab scan_abc False = Inr ([scanned ''B'' 200, scanned ''C'' 50], [])"
    by code_simp
  have g: "get_indexed_files store_ab = Inr [(''A'', 100), (''B'', 100)]"
    by code_simp
  have m: "\<forall>d \<in> set scan_abc. 0 < doc_modified d"
    by (simp add: scan_abc_def scanned_def)
  have d: "distinct (map fst store_ab)"
    by code_simp
  from p g m d index_plan_where_sound [OF p g m d] show ?thesis
    by (simp add: list_all_iff)
qed

lemma index_vault_deletes_absent:
  assumes "get_indexed_files coll = Inr indexed"
    and "distinct (map fst coll)"
  shows "\<exists>st. index_vault ext coll [] False =
           Inr (filter (\<lambda>(i, r). \<forall>p \<in> fst ` set indexed.
                          map_of (st_metadata r) ''source_path'' \<noteq> Some (MStr p)) coll, st)"
proof -
  have p: "index_plan coll [] False = Inr ([], map fst indexed)"
    using assms(1) by (simp add: index_plan_def bind_err_def)
  obtain c1 k where d: "delete_loop coll (map fst indexed) 0 = (c1, k)"
    by (cases "delete_loop coll (map fst indexed) 0")
  with delete_loop_filter [OF assms(2), of "map fst indexed" 0]
  have "c1 = filter (\<lambda>(i, r). \<forall>p \<in> fst ` set indexed.
                          map_of (st_metadata r) ''source_path'' \<noteq> Some (MStr p)) coll"
    by simp
  with p d show ?thesis
    by (simp add: index_vault_def bind_err_def)
qed

text \<open>
  Claim C2, evaluated on the code. The store holds the paths \<open>A\<close> and \<open>B\<close>,
  both indexed at 100. On the spec's own example, the scan \<open>{A:100, B:200, C:50}\<close>
  without \<open>force\<close>, the reconcile gives \<open>to_index = [B, C]\<close> and an empty
  \<open>to_delete\<close>. On the empty scan both paths are absent: without \<open>force\<close> the
  run deletes the two records, but under \<open>force\<close> the indexed-files map is
  replaced by the empty dictionary, \<open>to_delete\<close> is empty, nothing is passed to
  \<open>delete_by_source\<close> and the run returns the store as it was, with
  \<open>chunks_deleted = 0\<close>. And without \<open>force\<close>, a document that was never indexed
  and whose modification time is 0 is compared with the default 0 of
  \<open>indexed_files.get(doc.path, 0)\<close>: it is left out of \<open>to_index\<close> and the run
  indexes nothing.
\<close>

theorem index_vault_force_skips_deletion:
  "get_indexed_files store_ab = Inr [(''A'', 100), (''B'', 100)]
   \<and> index_plan store_ab scan_abc False = Inr ([scanned ''B'' 200, scanned ''C'' 50], [])
   \<and> index_plan store_ab [] False = Inr ([], [''A'', ''B''])
   \<and> index_vault para_ext store_ab [] False =
       Inr ([], \<lparr>documents_scanned = 0, documents_indexed = 0,
                 chunks_created = 0, chunks_deleted = 2\<rparr>)
   \<and> index_plan store_ab [] True = Inr ([], [])
   \<and> index_vault para_ext store_ab [] True =
       Inr (store_ab, \<lparr>documents_scanned = 0, documents_indexed = 0,
                       chunks_created = 0, chunks_deleted = 0\<rparr>)
   \<and> map fst (records_of_source store_ab ''A'') = [''A::chunk_0'']
   \<and> get_indexed_files [] = Inr []
   \<and> doc_modified epoch_doc = 0
   \<and> index_plan [] [epoch_doc] False = Inr ([], [])
   \<and> index_vault para_ext [] [epoch_doc] False =
       Inr ([], \<lparr>documents_scanned = 1, documents_indexed = 0,
                 chunks_created = 0, chunks_deleted = 0\<rparr>)"
proof -
  have 1: "get_indexed_files store_ab = Inr [(''A'', 100), (''B'', 100)]" by code_simp
  have 2: "index_plan store_ab scan_abc False = Inr ([scanned ''B'' 200, scanned ''C'' 50], [])"
    by code_simp
  have 3: "index_plan store_ab [] False = Inr ([], [''A'', ''B''])" by code_simp
  have 4: "index_vault para_ext store_ab [] False =
       Inr ([], \<lparr>documents_scanned = 0, documents_indexed = 0,
                 chunks_created = 0, chunks_deleted = 2\<rparr>)" by code_simp
  have 5: "index_plan store_ab [] True = Inr ([], [])" by code_simp
  have 6: "index_vault para_ext store_ab [] True =
       Inr (store_ab, \<lparr>documents_scanned = 0, documents_indexed = 0,
                       chunks_created = 0, chunks_deleted = 0\<rparr>)" by code_simp
  have 7: "map fst (records_of_source store_ab ''A'') = [''A::chunk_0'']" by code_simp
  have 8: "get_indexed_files [] = Inr []" by code_simp
  have 9: "doc_modified epoch_doc = 0" by (simp add: epoch_doc_def scanned_def)
  have 10: "index_plan [] [epoch_doc] False = Inr ([], [])" by code_simp
  have 11: "index_vault para_ext [] [epoch_doc] False =
       Inr ([], \<lparr>documents_scanned = 1, documents_indexed = 0,
                 chunks_created = 0, chunks_deleted = 0\<rparr>)" by code_simp
  from 1 2 3 4 5 6 7 8 9 10 11 show ?thesis by simp
qed

section \<open>Re-indexing through the full reconcile\<close>

text \<open>
  Claim C1, evaluated on the code. A note is indexed with two chunks; its shorter
  version, which gives one chunk, is then indexed by \<open>index_vault\<close>. The run
  upserts the new chunk 0 and deletes nothing, so the store still holds two records
  for the source and the old chunk 1 (the text \<open>two\<close>) survives. The single-file
  path, on the same store and file, deletes by source first and leaves one record;
  when the file has become blank it returns before deleting and leaves the store as
  it was.
\<close>

theorem index_vault_keeps_stale_chunk:
  "map fst store_after_v1 = [''/v/a.md::chunk_0'', ''/v/a.md::chunk_1'']
   \<and> length (chunk_all para_ext [note_v2]) = 1
   \<and> index_vault para_ext store_after_v1 [note_v2] False =
       Inr (store_after_v2, \<lparr>documents_scanned = 1, documents_indexed = 1,
                              chunks_created = 1, chunks_deleted = 0\<rparr>)
   \<and> map fst (records_of_source store_after_v2 ''/v/a.md'')
       = [''/v/a.md::chunk_0'', ''/v/a.md::chunk_1'']
   \<and> map (\<lambda>(i, r). st_document r) store_after_v2 = [''# T'', ''two'']
   \<and> map fst (records_of_source store_after_single ''/v/a.md'') = [''/v/a.md::chunk_0'']
   \<and> index_single_file para_ext store_after_v1 ''/v/a.md'' (Present (Some ''  '') ''md'' 300)
       = Inr (store_after_v1, 0)"
proof -
  have 1: "map fst store_after_v1 = [''/v/a.md::chunk_0'', ''/v/a.md::chunk_1'']"
    by code_simp
  have 2: "length (chunk_all para_ext [note_v2]) = 1"
    by code_simp
  have 3: "index_vault para_ext store_after_v1 [note_v2] False =
       Inr (store_after_v2, \<lparr>documents_scanned = 1, documents_indexed = 1,
                              chunks_created = 1, chunks_deleted = 0\<rparr>)"
    by code_simp
  have 4: "map fst (records_of_source store_after_v2 ''/v/a.md'')
       = [''/v/a.md::chunk_0'', ''/v/a.md::chunk_1'']"
    by code_simp
  have 5: "map (\<lambda>(i, r). st_document r) store_after_v2 = [''# T'', ''two'']"
    by code_simp
  have 6: "map fst (records_of_source store_after_single ''/v/a.md'') = [''/v/a.md::chunk_0'']"
    by code_simp
  have 7: "index_single_file para_ext store_after_v1 ''/v/a.md''
             (Present (Some ''  '') ''md'' 300) = Inr (store_after_v1, 0)"
    by code_simp
  from 1 2 3 4 5 6 7 show ?thesis by simp
qed

section \<open>Re-indexing through the single-file path\<close>

lemma source_chunk_loop:
  "c \<in> set (chunk_loop ext doc n i pos texts) \<Longrightarrow> source_path c = doc_path doc"
  by (induction texts arbitrary: i pos) (auto simp: Let_def)

lemma source_chunk_document:
  "c \<in> set (chunk_document ext doc spl) \<Longrightarrow> source_path c = doc_path doc"
  by (auto simp: chunk_document_def Let_def dest: source_chunk_loop)

lemma chunk_index_chunk_document:
  "map chunk_index (chunk_document ext doc spl) = map int [0..<length (chunk_document ext doc spl)]"
  using chunk_index_chunk_loop [of ext doc "length (split_text ext spl (doc_content doc))" 0 0
      "split_text ext spl (doc_content doc)"]
  by (simp add: chunk_document_def Let_def length_chunk_loop comp_def)

lemma distinct_index_chunk_document: "distinct (map chunk_index (chunk_document ext doc spl))"
  by (simp only: chunk_index_chunk_document) (simp add: distinct_map inj_on_def)

lemma chunk_all_single:
  "chunk_all ext [doc] = (if py_strip (doc_content doc) \<noteq> [] then chunk_document ext doc get_splitter else [])"
  by (simp add: chunk_all_def)

lemma set_update_distinct:
  "distinct (map fst al) \<Longrightarrow> set (AList.update k v al) = {x \<in> set al. fst x \<noteq> k} \<union> {(k, v)}"
  by (induction al) (auto simp: rev_image_eqI)

lemma fold_update_set:
  "distinct (map fst al) \<Longrightarrow> distinct (map fst kvs) \<Longrightarrow>
     set (fold (\<lambda>(k, v). AList.update k v) kvs al) = {x \<in> set al. fst x \<notin> fst ` set kvs} \<union> set kvs
     \<and> distinct (map fst (fold (\<lambda>(k, v). AList.update k v) kvs al))"
proof (induction kvs arbitrary: al)
  case Nil
  then show ?case by simp
next
  case (Cons kv kvs)
  obtain k v where kv: "kv = (k, v)" by (cases kv)
  have d: "distinct (map fst (AList.update k v al))"
    using Cons.prems(1) by (rule distinct_update)
  from Cons.prems(2) have dk: "distinct (map fst kvs)" and nk: "k \<notin> fst ` set kvs"
    by (simp_all add: kv)
  from nk have nk': "(k, b) \<notin> set kvs" for b by force
  from Cons.IH [OF d dk] set_update_distinct [OF Cons.prems(1), of k v] nk nk'
  show ?case by (auto simp: kv)
qed

lemma make_chunk_id_same_source:
  "source_path c1 = source_path c2 \<Longrightarrow> make_chunk_id c1 = make_chunk_id c2 \<Longrightarrow>
     chunk_index c1 = chunk_index c2"
proof -
  assume sp: "source_path c1 = source_path c2" and eq: "make_chunk_id c1 = make_chunk_id c2"
  from eq sp have "py_str_int (chunk_index c1) = py_str_int (chunk_index c2)"
    by (simp add: make_chunk_id_def)
  then show ?thesis by (rule py_str_int_inj)
qed

lemma distinct_ids_chunk_document: "distinct (map make_chunk_id (chunk_document ext doc spl))"
proof -
  let ?cs = "chunk_document ext doc spl"
  have d: "distinct (map chunk_index ?cs)" by (rule distinct_index_chunk_document)
  then have dc: "distinct ?cs" by (simp add: distinct_map)
  have "inj_on make_chunk_id (set ?cs)"
  proof (rule inj_onI)
    fix a b assume a: "a \<in> set ?cs" and b: "b \<in> set ?cs"
      and e: "make_chunk_id a = make_chunk_id b"
    from a b have "source_path a = source_path b" by (simp add: source_chunk_document)
    from make_chunk_id_same_source [OF this e] have "chunk_index a = chunk_index b" .
    with d a b show "a = b" by (simp add: distinct_map inj_on_def)
  qed
  with dc show ?thesis by (simp add: distinct_map)
qed

lemma upsert_as_updates:
  assumes "length docs = length ids" "length embs = length ids" "length metas = length ids"
  shows "fold (\<lambda>(i, d, e, m). AList.update i \<lparr>st_document = d, st_embedding = e, st_metadata = m\<rparr>)
           (zip ids (zip docs (zip embs metas))) coll
       = fold (\<lambda>(k, v). AList.update k v)
           (zip ids (map (\<lambda>(d, e, m). \<lparr>st_document = d, st_embedding = e, st_metadata = m\<rparr>)
                      (zip docs (zip embs metas)))) coll"
proof -
  have "zip ids (map (\<lambda>(d, e, m). \<lparr>st_document = d, st_embedding = e, st_metadata = m\<rparr>)
                      (zip docs (zip embs metas)))
      = map (\<lambda>(i, d, e, m). (i, \<lparr>st_document = d, st_embedding = e, st_metadata = m\<rparr>))
          (zip ids (zip docs (zip embs metas)))"
    by (simp add: zip_map2 split_def)
  then show ?thesis
    by (simp add: fold_map comp_def split_def)
qed

lemma records_after_upsert:
  assumes dc: "distinct (map fst coll)"
    and none: "records_of_source coll p = []"
    and dk: "distinct ids"
    and len: "length docs = length ids" "length embs = length ids" "length metas = length ids"
    and src: "\<forall>m \<in> set metas. map_of m ''source_path'' = Some (MStr p)"
    and up: "coll_upsert ids docs embs metas coll = Inr coll'"
  shows "set (records_of_source coll' p)
           = set (zip ids (map (\<lambda>(d, e, m). \<lparr>st_document = d, st_embedding = e, st_metadata = m\<rparr>)
                            (zip docs (zip embs metas))))
       \<and> length (records_of_source coll' p) = length ids
       \<and> distinct (map fst coll')"
proof -
  let ?Q = "\<lambda>(i, r). map_of (st_metadata r) ''source_path'' = Some (MStr p)"
  let ?recs = "map (\<lambda>(d, e, m). \<lparr>st_document = d, st_embedding = e, st_metadata = m\<rparr>)
                 (zip docs (zip embs metas))"
  let ?kvs = "zip ids ?recs"
  have lr: "length ?recs = length ids" using len by simp
  then have keys: "map fst ?kvs = ids" by simp
  with dk have dkv: "distinct (map fst ?kvs)" by simp
  from up len have c': "coll' = fold (\<lambda>(k, v). AList.update k v) ?kvs coll"
    by (simp add: coll_upsert_def upsert_as_updates)
  from fold_update_set [OF dc dkv] c'
  have sc: "set coll' = {x \<in> set coll. fst x \<notin> fst ` set ?kvs} \<union> set ?kvs"
    and dc': "distinct (map fst coll')" by simp_all
  from none have old: "\<not> ?Q x" if "x \<in> set coll" for x
    using that by (auto simp: records_of_source_def filter_empty_conv)
  have new: "?Q x" if "x \<in> set ?kvs" for x
  proof -
    obtain i r where x: "x = (i, r)" by (cases x)
    with that have "r \<in> set ?recs" by (auto dest: set_zip_rightD)
    then obtain d e m where "r = \<lparr>st_document = d, st_embedding = e, st_metadata = m\<rparr>"
      and "(d, e, m) \<in> set (zip docs (zip embs metas))" by auto
    then have "st_metadata r \<in> set metas" by (auto dest!: set_zip_rightD)
    with src x show ?thesis by simp
  qed
  have s: "set (records_of_source coll' p) = set ?kvs"
    using old new by (auto simp: records_of_source_def sc)
  from dc' have "distinct coll'" by (simp add: distinct_map)
  then have "distinct (records_of_source coll' p)" by (simp add: records_of_source_def)
  moreover from dkv have "distinct ?kvs" by (simp only: distinct_map)
  ultimately have "length (records_of_source coll' p) = length ?kvs"
    using s by (metis distinct_card)
  with lr s dc' show ?thesis by simp
qed

lemma records_none_after_delete:
  "distinct (map fst coll) \<Longrightarrow> records_of_source (fst (delete_by_source coll p)) p = []"
  by (auto simp: delete_by_source_filter records_of_source_def filter_empty_conv)

text \<open>
  The single-file path does replace the chunk set. On a store with one record per id,
  when the file gives \<open>M > 0\<close> chunks and the run succeeds, the store afterwards
  holds exactly \<open>M\<close> records for the path: their ids are the ids of the new chunks,
  and their documents and metadata are those of the new chunks. No record of an
  earlier version of the file is left, whatever its chunk index.
\<close>

lemma index_single_file_replaces:
  assumes dc: "distinct (map fst coll)"
    and run: "index_single_file ext coll p (Present (Some cont) ft mt) = Inr (coll', n)"
    and cs: "chunk_all ext [\<lparr>doc_path = p, doc_content = cont, doc_file_type = ft,
                             doc_modified = mt\<rparr>] = chunks"
    and ne: "chunks \<noteq> []"
  shows "n = int (length chunks)
       \<and> length (records_of_source coll' p) = length chunks
       \<and> fst ` set (records_of_source coll' p) = make_chunk_id ` set chunks
       \<and> (\<lambda>(i, r). (st_document r, st_metadata r)) ` set (records_of_source coll' p)
           = (\<lambda>c. (content c, chunk_to_metadata (path_name ext) c)) ` set chunks
       \<and> distinct (map fst coll')"
proof -
  let ?doc = "\<lparr>doc_path = p, doc_content = cont, doc_file_type = ft, doc_modified = mt\<rparr>"
  let ?ids = "map make_chunk_id chunks"
  let ?docs = "map content chunks"
  let ?metas = "map (chunk_to_metadata (path_name ext)) chunks"
  from cs ne have cd: "chunks = chunk_document ext ?doc get_splitter" and nb: "py_strip cont \<noteq> []"
    by (auto simp: chunk_all_single split: if_splits)
  from nb have c0: "cont \<noteq> []" by (rule strip_nonempty)
  obtain coll1 k where del: "delete_by_source coll p = (coll1, k)"
    by (cases "delete_by_source coll p")
  from run c0 cs ne del obtain embs where
    up: "coll_upsert ?ids ?docs embs ?metas coll1 = Inr coll'" and n: "n = int (length chunks)"
    by (auto simp: index_single_file_def Let_def upsert_chunks_def bind_err_Inr_iff)
  from up have le: "length embs = length ?ids"
    by (auto simp: coll_upsert_def split: if_splits)
  from del delete_by_source_distinct [OF dc, of p] records_none_after_delete [OF dc, of p]
  have d1: "distinct (map fst coll1)" and none: "records_of_source coll1 p = []" by simp_all
  have dk: "distinct ?ids" unfolding cd by (rule distinct_ids_chunk_document)
  have src: "\<forall>m \<in> set ?metas. map_of m ''source_path'' = Some (MStr p)"
    using source_chunk_document [of _ ext ?doc get_splitter]
    by (auto simp: cd chunk_to_metadata_def)
  from records_after_upsert [OF d1 none dk _ le _ src up]
  have s: "set (records_of_source coll' p)
           = set (zip ?ids (map (\<lambda>(d, e, m). \<lparr>st_document = d, st_embedding = e, st_metadata = m\<rparr>)
                            (zip ?docs (zip embs ?metas))))"
    and l: "length (records_of_source coll' p) = length chunks"
    and d': "distinct (map fst coll')" by simp_all
  have z: "zip ?ids (map (\<lambda>(d, e, m). \<lparr>st_document = d, st_embedding = e, st_metadata = m\<rparr>)
                            (zip ?docs (zip embs ?metas)))
         = map (\<lambda>(c, e). (make_chunk_id c, \<lparr>st_document = content c, st_embedding = e,
                   st_metadata = chunk_to_metadata (path_name ext) c\<rparr>)) (zip chunks embs)"
    using le by (induction chunks embs rule: list_induct2') simp_all
  from le have lz: "map fst (zip chunks embs) = chunks" by simp
  have i: "fst ` set (records_of_source coll' p) = make_chunk_id ` set chunks"
  proof -
    have "fst ` set (records_of_source coll' p) = set (map make_chunk_id (map fst (zip chunks embs)))"
      unfolding s z by (simp add: image_image case_prod_beta)
    then show ?thesis by (simp only: lz) simp
  qed
  have r: "(\<lambda>(i, r). (st_document r, st_metadata r)) ` set (records_of_source coll' p)
           = (\<lambda>c. (content c, chunk_to_metadata (path_name ext) c)) ` set chunks"
  proof -
    have "(\<lambda>(i, r). (st_document r, st_metadata r)) ` set (records_of_source coll' p)
        = set (map (\<lambda>c. (content c, chunk_to_metadata (path_name ext) c)) (map fst (zip chunks embs)))"
      unfolding s z by (simp add: image_image case_prod_beta)
    then show ?thesis by (simp only: lz) simp
  qed
  from n l i r d' show ?thesis by simp
qed

end
